theory Spec2Isabelle
  imports Main "HOL-Library.Monad_Syntax"
begin

section \<open>Data model of kilo.c\<close>

text \<open>
  The editor keeps one global \<open>Editor\<close> structure \<open>E\<close>, an array of \<open>Row\<close>s and a few
  function-local statics.  All C \<open>int\<close>s are modelled as unbounded \<open>int\<close> (the counters of the
  program never get near the 32-bit limits in a session), character buffers as \<open>string\<close>
  (the \<open>size\<close> and \<open>rsize\<close> fields are the lengths of \<open>chars\<close> and \<open>render\<close>; the
  terminating NUL byte that C stores behind them is made explicit by \<open>char_at\<close>), and the
  highlight buffer \<open>hl\<close> as a list whose length is the number of bytes allocated for it.
  Allocation (\<open>xmalloc\<close>, \<open>xrealloc\<close>, \<open>xstrdup\<close>) is assumed to succeed, also for
  the size 0 that \<open>editorUpdateSyntax\<close> asks for on an empty line (a \<open>realloc\<close> that
  answers a size of 0 with \<open>NULL\<close> would make \<open>xrealloc\<close> end the program in \<open>die\<close>).
\<close>

datatype Highlight =
  HL_NORMAL | HL_COMMENT | HL_MLCOMMENT | HL_KEYWORD1 | HL_KEYWORD2
  | HL_STRING | HL_NUMBER | HL_MATCH

record Row =
  idx :: int
  chars :: string
  render :: string
  hl :: "Highlight list"
  hl_open_comment :: bool

record Syntax =
  filetype :: string
  filematch :: "string list"
  keywordz :: "string list"
  scs :: string
  mcs :: string
  mce :: string
  flags :: nat

definition TAB_STOP :: nat where "TAB_STOP = 8"
definition QUIT_TIMES :: int where "QUIT_TIMES = 3"

definition HL_NUMBERS :: nat where "HL_NUMBERS = 1"
definition HL_STRINGS :: nat where "HL_STRINGS = 2"

text \<open>\<open>flags & HL_NUMBERS\<close> and \<open>flags & HL_STRINGS\<close>: bit 0 and bit 1 of the flags.\<close>

definition hl_numbers_on :: "Syntax \<Rightarrow> bool" where
  "hl_numbers_on s = odd (flags s)"

definition hl_strings_on :: "Syntax \<Rightarrow> bool" where
  "hl_strings_on s = odd (flags s div 2)"

definition C_EXTS :: "string list" where
  "C_EXTS = [''.c'', ''.h'', ''.cpp'', ''.hpp'']"

definition C_KW :: "string list" where
  "C_KW = [''switch'', ''if'', ''while'', ''for'', ''break'', ''continue'', ''return'', ''else'',
           ''struct'', ''union'', ''typedef'', ''static'', ''enum'', ''class'', ''case'',
           ''int|'', ''long|'', ''double|'', ''float|'', ''char|'', ''unsigned|'', ''signed|'',
           ''void|'', ''size_t|'', ''ssize_t|'', ''bool|'']"

definition HLDB :: "Syntax list" where
  "HLDB = [\<lparr> filetype = ''c'', filematch = C_EXTS, keywordz = C_KW,
            scs = ''//'', mcs = ''/*'', mce = ''*/'', flags = HL_NUMBERS + HL_STRINGS \<rparr>]"

section \<open>Syntax highlighting\<close>

definition NUL :: char where "NUL = CHR 0x00"

text \<open>\<open>isspace\<close> and \<open>isdigit\<close> of the C locale.\<close>

definition isspace :: "char \<Rightarrow> bool" where
  "isspace c = (c \<in> set [CHR '' '', CHR 0x09, CHR 0x0A, CHR 0x0B, CHR 0x0C, CHR 0x0D])"

definition isdigit :: "char \<Rightarrow> bool" where
  "isdigit c = (c \<in> set ''0123456789'')"

definition isSeparator :: "char \<Rightarrow> bool" where
  "isSeparator c = (isspace c \<or> c = NUL \<or> c \<in> set '',.()+-/*=~%<>[]:;{}'')"

text \<open>Reading a NUL-terminated buffer at an index: position \<open>length s\<close> holds the NUL.\<close>

definition char_at :: "string \<Rightarrow> nat \<Rightarrow> char" where
  "char_at s j = (if j < length s then s ! j else NUL)"

text \<open>
  \<open>!strncmp(&render[i], pat, strlen(pat))\<close> for a pattern without NUL bytes: the
  \<open>strlen(pat)\<close> bytes from position \<open>i\<close> are those of the pattern.  A comparison that
  reaches the terminating NUL of \<open>render\<close> fails there, as \<open>take\<close> of a too short rest does.
\<close>

definition strncmp_eq :: "string \<Rightarrow> nat \<Rightarrow> string \<Rightarrow> bool" where
  "strncmp_eq r i pat = (take (length pat) (drop i r) = pat)"

text \<open>\<open>memset(&hl[i], v, n)\<close>.\<close>

definition memset_hl :: "Highlight list \<Rightarrow> nat \<Rightarrow> Highlight \<Rightarrow> nat \<Rightarrow> Highlight list" where
  "memset_hl h i v n = take i h @ replicate n v @ drop (i + n) h"

text \<open>
  The keyword loop of \<open>editorUpdateSyntax\<close>: the first keyword of the table, in table order,
  whose characters (without a trailing \<open>|\<close>) stand at position \<open>i\<close> and are followed by a
  separator.  The result is the matched length and the \<open>kw2\<close> flag.  (An empty keyword would
  make the C code read \<open>keywords[k][-1]\<close>; the tables of \<open>HLDB\<close> have none.)
\<close>

fun match_keyword :: "string list \<Rightarrow> string \<Rightarrow> nat \<Rightarrow> (nat \<times> bool) option" where
  "match_keyword [] r i = None"
| "match_keyword (k # ks) r i =
     (let kw2 = (k \<noteq> [] \<and> last k = CHR ''|'');
          klen = (if kw2 then length k - 1 else length k)
      in if strncmp_eq r i (take klen k) \<and> isSeparator (char_at r (i + klen))
         then Some (klen, kw2)
         else match_keyword ks r i)"

text \<open>The local variables of the scanning loop of \<open>editorUpdateSyntax\<close>.\<close>

record scan =
  sc_i :: nat
  sc_prev_sep :: bool
  sc_in_string :: char
  sc_in_comment :: bool
  sc_hl :: "Highlight list"

datatype scan_step = Break scan | Continue scan

text \<open>
  One iteration of \<open>while (i < row->rsize)\<close>, for \<open>i < rsize\<close>, section by section as the
  source has them.  A section returns \<open>None\<close> when control falls through to the next one,
  \<open>Some (Continue st')\<close> for \<open>continue\<close> with the updated locals and \<open>Some (Break st')\<close>
  for \<open>break\<close>.
\<close>

definition scan_scs :: "Syntax \<Rightarrow> string \<Rightarrow> scan \<Rightarrow> scan_step option" where
  "scan_scs s r st =
    (let i = sc_i st; h = sc_hl st in
     if scs s \<noteq> [] \<and> sc_in_string st = NUL \<and> \<not> sc_in_comment st \<and> strncmp_eq r i (scs s)
     then Some (Break (st\<lparr>sc_hl := memset_hl h i HL_COMMENT (length r - i)\<rparr>))
     else None)"

definition scan_mlcomment :: "Syntax \<Rightarrow> string \<Rightarrow> scan \<Rightarrow> scan_step option" where
  "scan_mlcomment s r st =
    (let i = sc_i st; h = sc_hl st in
     if mcs s \<noteq> [] \<and> mce s \<noteq> [] \<and> sc_in_string st = NUL
     then (if sc_in_comment st
           then (if strncmp_eq r i (mce s)
                 then Some (Continue (st\<lparr>sc_hl := memset_hl (h[i := HL_MLCOMMENT]) i
                                                     HL_MLCOMMENT (length (mce s)),
                                         sc_i := i + length (mce s),
                                         sc_in_comment := False,
                                         sc_prev_sep := True\<rparr>))
                 else Some (Continue (st\<lparr>sc_hl := h[i := HL_MLCOMMENT], sc_i := i + 1\<rparr>)))
           else if strncmp_eq r i (mcs s)
           then Some (Continue (st\<lparr>sc_hl := memset_hl h i HL_MLCOMMENT (length (mcs s)),
                                   sc_i := i + length (mcs s),
                                   sc_in_comment := True\<rparr>))
           else None)
     else None)"

definition scan_string :: "Syntax \<Rightarrow> string \<Rightarrow> scan \<Rightarrow> scan_step option" where
  "scan_string s r st =
    (let i = sc_i st; h = sc_hl st; c = r ! i in
     if hl_strings_on s
     then (if sc_in_string st \<noteq> NUL
           then (if c = CHR 0x5C \<and> i + 1 < length r
                 then Some (Continue (st\<lparr>sc_hl := h[i := HL_STRING, i + 1 := HL_STRING],
                                         sc_i := i + 2\<rparr>))
                 else Some (Continue (st\<lparr>sc_hl := h[i := HL_STRING],
                                         sc_in_string := (if c = sc_in_string st then NUL
                                                          else sc_in_string st),
                                         sc_i := i + 1,
                                         sc_prev_sep := True\<rparr>)))
           else if c = CHR 0x22 \<or> c = CHR 0x27
           then Some (Continue (st\<lparr>sc_in_string := c, sc_hl := h[i := HL_STRING],
                                   sc_i := i + 1\<rparr>))
           else None)
     else None)"

definition scan_number :: "Syntax \<Rightarrow> string \<Rightarrow> scan \<Rightarrow> scan_step option" where
  "scan_number s r st =
    (let i = sc_i st; h = sc_hl st; c = r ! i;
         prev_hl = (if i > 0 then h ! (i - 1) else HL_NORMAL) in
     if hl_numbers_on s \<and>
        ((isdigit c \<and> (sc_prev_sep st \<or> prev_hl = HL_NUMBER)) \<or>
         (c = CHR ''.'' \<and> prev_hl = HL_NUMBER))
     then Some (Continue (st\<lparr>sc_hl := h[i := HL_NUMBER], sc_i := i + 1, sc_prev_sep := False\<rparr>))
     else None)"

definition scan_keyword :: "Syntax \<Rightarrow> string \<Rightarrow> scan \<Rightarrow> scan_step option" where
  "scan_keyword s r st =
    (let i = sc_i st; h = sc_hl st in
     if sc_prev_sep st
     then (case match_keyword (keywordz s) r i of
             Some (klen, kw2) \<Rightarrow>
               Some (Continue (st\<lparr>sc_hl := memset_hl h i (if kw2 then HL_KEYWORD2 else HL_KEYWORD1) klen,
                                  sc_i := i + klen,
                                  sc_prev_sep := False\<rparr>))
           | None \<Rightarrow> None)
     else None)"

definition scan_body :: "Syntax \<Rightarrow> string \<Rightarrow> scan \<Rightarrow> scan_step" where
  "scan_body s r st =
    (case scan_scs s r st of Some x \<Rightarrow> x | None \<Rightarrow>
     case scan_mlcomment s r st of Some x \<Rightarrow> x | None \<Rightarrow>
     case scan_string s r st of Some x \<Rightarrow> x | None \<Rightarrow>
     case scan_number s r st of Some x \<Rightarrow> x | None \<Rightarrow>
     case scan_keyword s r st of Some x \<Rightarrow> x | None \<Rightarrow>
     Continue (st\<lparr>sc_prev_sep := isSeparator (r ! sc_i st), sc_i := sc_i st + 1\<rparr>))"

definition scan_measure :: "string \<Rightarrow> scan \<Rightarrow> nat" where
  "scan_measure r st = 2 * (length r - sc_i st) + (if sc_prev_sep st then 1 else 0)"



lemma scan_mlcomment_adv:
  "scan_mlcomment s r st = Some (Continue st') \<Longrightarrow>
   sc_i st < sc_i st' \<or> (sc_i st' = sc_i st \<and> sc_prev_sep st \<and> \<not> sc_prev_sep st')"
  by (auto simp: scan_mlcomment_def Let_def split: if_splits)

lemma scan_string_adv:
  "scan_string s r st = Some (Continue st') \<Longrightarrow>
   sc_i st < sc_i st' \<or> (sc_i st' = sc_i st \<and> sc_prev_sep st \<and> \<not> sc_prev_sep st')"
  by (auto simp: scan_string_def Let_def split: if_splits)

lemma scan_number_adv:
  "scan_number s r st = Some (Continue st') \<Longrightarrow>
   sc_i st < sc_i st' \<or> (sc_i st' = sc_i st \<and> sc_prev_sep st \<and> \<not> sc_prev_sep st')"
  by (auto simp: scan_number_def Let_def split: if_splits)

lemma scan_keyword_adv:
  "scan_keyword s r st = Some (Continue st') \<Longrightarrow>
   sc_i st < sc_i st' \<or> (sc_i st' = sc_i st \<and> sc_prev_sep st \<and> \<not> sc_prev_sep st')"
  by (auto simp: scan_keyword_def Let_def split: if_splits option.splits)

lemma scan_scs_adv:
  "scan_scs s r st = Some (Continue st') \<Longrightarrow>
   sc_i st < sc_i st' \<or> (sc_i st' = sc_i st \<and> sc_prev_sep st \<and> \<not> sc_prev_sep st')"
  by (auto simp: scan_scs_def Let_def split: if_splits)

lemma scan_body_adv:
  "scan_body s r st = Continue st' \<Longrightarrow>
   sc_i st < sc_i st' \<or> (sc_i st' = sc_i st \<and> sc_prev_sep st \<and> \<not> sc_prev_sep st')"
  unfolding scan_body_def
  by (auto split: option.splits
           dest: scan_scs_adv scan_mlcomment_adv scan_string_adv scan_number_adv scan_keyword_adv)

lemma scan_body_decreases:
  assumes "sc_i st < length r" and "scan_body s r st = Continue st'"
  shows "scan_measure r st' < scan_measure r st"
  using scan_body_adv [OF assms(2)] assms(1)
  by (auto simp: scan_measure_def)

function scan_loop :: "Syntax \<Rightarrow> string \<Rightarrow> scan \<Rightarrow> scan" where
  "scan_loop s r st =
     (if sc_i st < length r
      then (case scan_body s r st of
              Break st' \<Rightarrow> st'
            | Continue st' \<Rightarrow> scan_loop s r st')
      else st)"
  by pat_completeness auto
termination
proof (relation "measure (\<lambda>(s, r, st). scan_measure r st)")
  show "wf (measure (\<lambda>(s, r, st). scan_measure r st))"
    by (rule wf_measure)
next
  fix s r st st'
  assume "sc_i st < length r" and "scan_body s r st = Continue st'"
  then have "scan_measure r st' < scan_measure r st"
    by (rule scan_body_decreases)
  then show "((s, r, st'), (s, r, st)) \<in> measure (\<lambda>(s, r, st). scan_measure r st)"
    by simp
qed

declare scan_loop.simps [simp del]


text \<open>
  The locals at loop entry: \<open>hl\<close> has just been set to \<open>HL_NORMAL\<close> on \<open>rsize\<close> bytes,
  \<open>prev_sep = 1\<close>, \<open>in_string = 0\<close>, and \<open>in_comment\<close> comes from the previous row.
\<close>

definition scan_init :: "string \<Rightarrow> bool \<Rightarrow> scan" where
  "scan_init r in_comment0 =
     \<lparr>sc_i = 0, sc_prev_sep = True, sc_in_string = NUL, sc_in_comment = in_comment0,
      sc_hl = replicate (length r) HL_NORMAL\<rparr>"

section \<open>The editor state\<close>

text \<open>
  The global \<open>E\<close> together with the statics of \<open>editorProcessKeypress\<close> (\<open>quit_times\<close>)
  and of \<open>editorFindCallback\<close> (\<open>last_match\<close>, \<open>direction\<close>, \<open>saved_hl_line\<close>,
  \<open>saved_hl\<close>).  The list \<open>row\<close> holds the live slots of the array \<open>E.row\<close>.  The status
  message and the saved terminal attributes are write-only for the editing logic and left out.
\<close>

record Editor =
  cx :: int
  cy :: int
  rx :: int
  rowoff :: int
  coloff :: int
  screenrows :: int
  screencols :: int
  numrows :: int
  row :: "Row list"
  dirty :: int
  filename :: "string option"
  esyntax :: "Syntax option"
  quit_times :: int
  last_match :: int
  direction :: int
  saved_hl_line :: int
  saved_hl :: "Highlight list option"

text \<open>
  \<open>E.row[j]\<close>.  An index outside the array is undefined behaviour in C; the model returns
  \<open>None\<close>, and every function that reads or writes through such an index returns \<open>None\<close>.
\<close>

definition row_at :: "Editor \<Rightarrow> int \<Rightarrow> Row option" where
  "row_at E j = (if 0 \<le> j \<and> nat j < length (row E) then Some (row E ! nat j) else None)"

definition row_set :: "Editor \<Rightarrow> nat \<Rightarrow> Row \<Rightarrow> Editor" where
  "row_set E p r = E\<lparr>row := (row E)[p := r]\<rparr>"

subsection \<open>editorUpdateSyntax\<close>

text \<open>
  \<open>editorUpdateSyntax(&E.row[p])\<close>.  The neighbours are found through the \<open>idx\<close> field of
  the row, as in the source, so the recursion follows \<open>idx\<close> and is not structurally
  bounded: the result \<open>None\<close> stands for a call that does not return (or leaves the array).
\<close>

partial_function (option) editorUpdateSyntax :: "Editor \<Rightarrow> nat \<Rightarrow> Editor option" where
  "editorUpdateSyntax E p =
    (if p < length (row E)
     then (let r = row E ! p;
               h0 = replicate (length (render r)) HL_NORMAL
           in case esyntax E of
                None \<Rightarrow> Some (row_set E p (r\<lparr>hl := h0\<rparr>))
              | Some s \<Rightarrow>
                  (case (if idx r > 0 then map_option hl_open_comment (row_at E (idx r - 1))
                         else Some False) of
                     None \<Rightarrow> None
                   | Some in_comment0 \<Rightarrow>
                       (let st = scan_loop s (render r) (scan_init (render r) in_comment0);
                            changed = (hl_open_comment r \<noteq> sc_in_comment st);
                            E' = row_set E p (r\<lparr>hl := sc_hl st,
                                                 hl_open_comment := sc_in_comment st\<rparr>)
                        in if changed \<and> idx r + 1 < numrows E
                           then (if idx r + 1 < 0 then None
                                 else editorUpdateSyntax E' (nat (idx r + 1)))
                           else Some E')))
     else None)"

declare editorUpdateSyntax.simps [code]

section \<open>Rows\<close>

definition TAB :: char where "TAB = CHR 0x09"

text \<open>The body of the loops of \<open>rowCxToRx\<close> and \<open>rowRxToCx\<close>.\<close>

definition rx_advance :: "char \<Rightarrow> nat \<Rightarrow> nat" where
  "rx_advance c n = (if c = TAB then n + ((TAB_STOP - 1) - n mod TAB_STOP) else n) + 1"

function rowCxToRx_loop :: "string \<Rightarrow> nat \<Rightarrow> nat \<Rightarrow> nat \<Rightarrow> nat" where
  "rowCxToRx_loop cs n j acc =
     (if j < n then rowCxToRx_loop cs n (j + 1) (rx_advance (char_at cs j) acc) else acc)"
  by pat_completeness auto
termination
  by (relation "measure (\<lambda>(cs, n, j, acc). n - j)") auto

declare rowCxToRx_loop.simps [simp del]

text \<open>
  \<open>rowCxToRx(row, cx)\<close>; a \<open>cx\<close> below 0 runs no iteration.  (For \<open>cx > size + 1\<close> the C
  loop reads behind the buffer; no caller does.)
\<close>

definition rowCxToRx :: "Row \<Rightarrow> int \<Rightarrow> int" where
  "rowCxToRx r c = int (rowCxToRx_loop (chars r) (nat c) 0 0)"

function rowRxToCx_loop :: "string \<Rightarrow> int \<Rightarrow> nat \<Rightarrow> nat \<Rightarrow> nat" where
  "rowRxToCx_loop cs target j cur =
     (if j < length cs
      then (let cur' = rx_advance (cs ! j) cur
            in if int cur' > target then j else rowRxToCx_loop cs target (j + 1) cur')
      else j)"
  by pat_completeness auto
termination
  by (relation "measure (\<lambda>(cs, target, j, cur). length cs - j)") auto

declare rowRxToCx_loop.simps [simp del]

definition rowRxToCx :: "Row \<Rightarrow> int \<Rightarrow> int" where
  "rowRxToCx r target = int (rowRxToCx_loop (chars r) target 0 0)"

text \<open>
  The render loop of \<open>editorUpdateRow\<close>: a tab becomes one space and then spaces up to the
  next multiple of \<open>TAB_STOP\<close>; the argument \<open>out\<close> is the part of \<open>render\<close> written so far.
\<close>

fun render_loop :: "string \<Rightarrow> string \<Rightarrow> string" where
  "render_loop [] out = out"
| "render_loop (c # cs) out =
     (if c = TAB
      then render_loop cs
             (out @ CHR '' '' #
                replicate ((TAB_STOP - (length out + 1) mod TAB_STOP) mod TAB_STOP) (CHR '' ''))
      else render_loop cs (out @ [c]))"

definition editorUpdateRow :: "Editor \<Rightarrow> nat \<Rightarrow> Editor option" where
  "editorUpdateRow E p =
     (if p < length (row E)
      then editorUpdateSyntax (row_set E p ((row E ! p)\<lparr>render := render_loop (chars (row E ! p)) []\<rparr>)) p
      else None)"

text \<open>
  \<open>editorInsertRow(at, s, len)\<close>: the array grows to \<open>numrows + 1\<close> slots, the rows from
  \<open>at\<close> on move up with their \<open>idx\<close> incremented, and the new row is rendered and
  highlighted while \<open>E.numrows\<close> still has its old value.
\<close>

definition editorInsertRow :: "Editor \<Rightarrow> int \<Rightarrow> string \<Rightarrow> Editor option" where
  "editorInsertRow E at s =
     (if at < 0 \<or> at > numrows E then Some E
      else (let a = nat at;
                moved = map (\<lambda>r. r\<lparr>idx := idx r + 1\<rparr>) (take (nat (numrows E) - a) (drop a (row E)));
                new = \<lparr>idx = at, chars = s, render = [], hl = [], hl_open_comment = False\<rparr>
            in do {
                 E1 \<leftarrow> editorUpdateRow (E\<lparr>row := take a (row E) @ new # moved\<rparr>) a;
                 Some (E1\<lparr>numrows := numrows E1 + 1, dirty := dirty E1 + 1\<rparr>)
               }))"

definition editorDelRow :: "Editor \<Rightarrow> int \<Rightarrow> Editor" where
  "editorDelRow E at =
     (if at < 0 \<or> at \<ge> numrows E then E
      else (let a = nat at;
                moved = map (\<lambda>r. r\<lparr>idx := idx r - 1\<rparr>)
                          (take (nat (numrows E) - a - 1) (drop (a + 1) (row E)))
            in E\<lparr>row := take a (row E) @ moved,
                 numrows := numrows E - 1,
                 dirty := dirty E + 1\<rparr>))"

definition rowInsertChar :: "Editor \<Rightarrow> nat \<Rightarrow> int \<Rightarrow> char \<Rightarrow> Editor option" where
  "rowInsertChar E p at c =
     (if p < length (row E)
      then (let r = row E ! p;
                a = (if at < 0 \<or> at > int (length (chars r)) then length (chars r) else nat at)
            in do {
                 E1 \<leftarrow> editorUpdateRow (row_set E p (r\<lparr>chars := take a (chars r) @ c # drop a (chars r)\<rparr>)) p;
                 Some (E1\<lparr>dirty := dirty E1 + 1\<rparr>)
               })
      else None)"

definition rowAppendString :: "Editor \<Rightarrow> nat \<Rightarrow> string \<Rightarrow> Editor option" where
  "rowAppendString E p s =
     (if p < length (row E)
      then do {
             E1 \<leftarrow> editorUpdateRow (row_set E p ((row E ! p)\<lparr>chars := chars (row E ! p) @ s\<rparr>)) p;
             Some (E1\<lparr>dirty := dirty E1 + 1\<rparr>)
           }
      else None)"

definition rowDelChar :: "Editor \<Rightarrow> nat \<Rightarrow> int \<Rightarrow> Editor option" where
  "rowDelChar E p at =
     (if p < length (row E)
      then (let r = row E ! p
            in if at < 0 \<or> at \<ge> int (length (chars r)) then Some E
               else do {
                      E1 \<leftarrow> editorUpdateRow
                              (row_set E p (r\<lparr>chars := take (nat at) (chars r) @ drop (nat at + 1) (chars r)\<rparr>)) p;
                      Some (E1\<lparr>dirty := dirty E1 + 1\<rparr>)
                    })
      else None)"

section \<open>Editor operations\<close>

definition editorInsertChar :: "Editor \<Rightarrow> char \<Rightarrow> Editor option" where
  "editorInsertChar E c =
     do {
       E1 \<leftarrow> (if cy E = numrows E then editorInsertRow E (numrows E) [] else Some E);
       _ \<leftarrow> row_at E1 (cy E1);
       E2 \<leftarrow> rowInsertChar E1 (nat (cy E1)) (cx E1) c;
       Some (E2\<lparr>cx := cx E2 + 1\<rparr>)
     }"

definition editorInsertNewline :: "Editor \<Rightarrow> Editor option" where
  "editorInsertNewline E =
     do {
       E3 \<leftarrow> (if cx E = 0 then editorInsertRow E (cy E) []
              else do {
                     r \<leftarrow> row_at E (cy E);
                     _ \<leftarrow> (if 0 \<le> cx E \<and> cx E \<le> int (length (chars r)) then Some () else None);
                     E1 \<leftarrow> editorInsertRow E (cy E + 1) (drop (nat (cx E)) (chars r));
                     r1 \<leftarrow> row_at E1 (cy E1);
                     editorUpdateRow (row_set E1 (nat (cy E1)) (r1\<lparr>chars := take (nat (cx E1)) (chars r1)\<rparr>))
                                     (nat (cy E1))
                   });
       Some (E3\<lparr>cy := cy E3 + 1, cx := 0\<rparr>)
     }"

definition editorDelChar :: "Editor \<Rightarrow> Editor option" where
  "editorDelChar E =
     (if cy E = numrows E then Some E
      else if cx E = 0 \<and> cy E = 0 then Some E
      else if cx E > 0
      then do {
             _ \<leftarrow> row_at E (cy E);
             E1 \<leftarrow> rowDelChar E (nat (cy E)) (cx E - 1);
             Some (E1\<lparr>cx := cx E1 - 1\<rparr>)
           }
      else do {
             r \<leftarrow> row_at E (cy E);
             prev \<leftarrow> row_at E (cy E - 1);
             E1 \<leftarrow> rowAppendString (E\<lparr>cx := int (length (chars prev))\<rparr>) (nat (cy E - 1)) (chars r);
             Some ((editorDelRow E1 (cy E1))\<lparr>cy := cy E1 - 1\<rparr>)
           })"


section \<open>File I/O\<close>

definition LF :: char where "LF = CHR 0x0A"
definition CR :: char where "CR = CHR 0x0D"

text \<open>The bytes of a buffer that C string functions see: those before the first NUL.\<close>

definition cstr :: "string \<Rightarrow> string" where
  "cstr s = takeWhile (\<lambda>c. c \<noteq> NUL) s"

text \<open>\<open>strstr(h, q)\<close> on C strings: the offset of the first occurrence, if any.\<close>

fun strstr :: "string \<Rightarrow> string \<Rightarrow> nat option" where
  "strstr [] q = (if q = [] then Some 0 else None)"
| "strstr (c # h) q =
     (if take (length q) (c # h) = q then Some 0 else map_option Suc (strstr h q))"

text \<open>\<open>strrchr(s, c)\<close>: the rest of the string from the last occurrence of \<open>c\<close>.\<close>

fun strrchr :: "string \<Rightarrow> char \<Rightarrow> string option" where
  "strrchr [] c = None"
| "strrchr (x # xs) c =
     (case strrchr xs c of
        Some t \<Rightarrow> Some t
      | None \<Rightarrow> (if x = c then Some (x # xs) else None))"

fun filematch_loop :: "string list \<Rightarrow> string \<Rightarrow> bool" where
  "filematch_loop [] f = False"
| "filematch_loop (m # ms) f =
     (let is_ext = (char_at m 0 = CHR ''.'')
      in if (is_ext \<and> strrchr f (CHR ''.'') = Some m) \<or> (\<not> is_ext \<and> strstr f m \<noteq> None)
         then True
         else filematch_loop ms f)"

fun select_loop :: "Syntax list \<Rightarrow> string \<Rightarrow> Syntax option" where
  "select_loop [] f = None"
| "select_loop (s # db) f = (if filematch_loop (filematch s) f then Some s else select_loop db f)"

text \<open>\<open>for (r = 0; r < E.numrows; r++) editorUpdateSyntax(&E.row[r])\<close>, \<open>n\<close> rows from \<open>r\<close>.\<close>

fun rehighlight_loop :: "nat \<Rightarrow> nat \<Rightarrow> Editor \<Rightarrow> Editor option" where
  "rehighlight_loop 0 r E = Some E"
| "rehighlight_loop (Suc n) r E = do { E1 \<leftarrow> editorUpdateSyntax E r; rehighlight_loop n (Suc r) E1 }"

definition editorSelectSyntax :: "Editor \<Rightarrow> Editor option" where
  "editorSelectSyntax E =
     (let E0 = E\<lparr>esyntax := None\<rparr>
      in case filename E0 of
           None \<Rightarrow> Some E0
         | Some f \<Rightarrow>
             (case select_loop HLDB f of
                None \<Rightarrow> Some E0
              | Some s \<Rightarrow> rehighlight_loop (nat (numrows E0)) 0 (E0\<lparr>esyntax := Some s\<rparr>)))"

definition editorRowsToString :: "Editor \<Rightarrow> string" where
  "editorRowsToString E = concat (map (\<lambda>r. chars r @ [LF]) (take (nat (numrows E)) (row E)))"

text \<open>
  The lines that successive \<open>getline\<close> calls return for a file content: each ends with its
  newline, except a last line that the file leaves unterminated.
\<close>

fun getlines :: "string \<Rightarrow> string \<Rightarrow> string list" where
  "getlines cur [] = (if cur = [] then [] else [cur])"
| "getlines cur (c # cs) =
     (if c = LF then (cur @ [c]) # getlines [] cs else getlines (cur @ [c]) cs)"

text \<open>\<open>while (len > 0 && (line[len - 1] == '\n' || line[len - 1] == '\r')) len--\<close>.\<close>

definition chomp :: "string \<Rightarrow> string" where
  "chomp l = rev (dropWhile (\<lambda>c. c = LF \<or> c = CR) (rev l))"

fun open_loop :: "string list \<Rightarrow> Editor \<Rightarrow> Editor option" where
  "open_loop [] E = Some E"
| "open_loop (l # ls) E = do { E1 \<leftarrow> editorInsertRow E (numrows E) (chomp l); open_loop ls E1 }"

text \<open>\<open>editorOpen(filename)\<close> for a file that can be opened and has the given content.\<close>

definition editorOpen :: "Editor \<Rightarrow> string \<Rightarrow> string \<Rightarrow> Editor option" where
  "editorOpen E name content =
     do {
       E1 \<leftarrow> editorSelectSyntax (E\<lparr>filename := Some name\<rparr>);
       E2 \<leftarrow> open_loop (getlines [] content) E1;
       Some (E2\<lparr>dirty := 0\<rparr>)
     }"

section \<open>Keys\<close>

definition KEY_BACKSPACE :: int where "KEY_BACKSPACE = 127"
definition KEY_ARROW_LEFT :: int where "KEY_ARROW_LEFT = 1000"
definition KEY_ARROW_RIGHT :: int where "KEY_ARROW_RIGHT = 1001"
definition KEY_ARROW_UP :: int where "KEY_ARROW_UP = 1002"
definition KEY_ARROW_DOWN :: int where "KEY_ARROW_DOWN = 1003"
definition KEY_DEL :: int where "KEY_DEL = 1004"
definition KEY_HOME :: int where "KEY_HOME = 1005"
definition KEY_END :: int where "KEY_END = 1006"
definition KEY_PAGE_UP :: int where "KEY_PAGE_UP = 1007"
definition KEY_PAGE_DOWN :: int where "KEY_PAGE_DOWN = 1008"

definition KEY_ESC :: int where "KEY_ESC = 27"
definition KEY_ENTER :: int where "KEY_ENTER = 13"

text \<open>\<open>CTRL_KEY(k)\<close> is \<open>k & 0x1f\<close>.\<close>

definition CTRL_KEY :: "char \<Rightarrow> int" where
  "CTRL_KEY k = of_char k mod 32"

text \<open>\<open>iscntrl\<close> of the C locale, on the \<open>int\<close> that \<open>editorReadKey\<close> returned.\<close>

definition iscntrl :: "int \<Rightarrow> bool" where
  "iscntrl c = ((0 \<le> c \<and> c < 32) \<or> c = 127)"

section \<open>Search\<close>

text \<open>
  The scanning loop of \<open>editorFindCallback\<close>, with \<open>n\<close> iterations left and the local
  \<open>current\<close>.  On a hit the loop body places the cursor, saves the highlight of the line and
  paints the match.
\<close>

fun find_loop :: "string \<Rightarrow> nat \<Rightarrow> int \<Rightarrow> Editor \<Rightarrow> Editor option" where
  "find_loop q 0 current E = Some E"
| "find_loop q (Suc n) current E =
     (let c1 = current + direction E;
          c2 = (if c1 = - 1 then numrows E - 1 else c1);
          c3 = (if c2 = numrows E then 0 else c2)
      in do {
           r \<leftarrow> row_at E c3;
           (case strstr (cstr (render r)) q of
              None \<Rightarrow> find_loop q n c3 E
            | Some m \<Rightarrow>
                Some ((row_set E (nat c3) (r\<lparr>hl := memset_hl (hl r) m HL_MATCH (length q)\<rparr>))
                        \<lparr>last_match := c3,
                         cy := c3,
                         cx := rowRxToCx r (int m),
                         rowoff := numrows E,
                         saved_hl_line := c3,
                         saved_hl := Some (take (length (render r)) (hl r))\<rparr>))
         })"

text \<open>\<open>memcpy(E.row[saved_hl_line].hl, saved_hl, rsize)\<close> at the start of the callback.\<close>

definition restore_hl :: "Editor \<Rightarrow> Editor option" where
  "restore_hl E =
     (case saved_hl E of
        None \<Rightarrow> Some E
      | Some sv \<Rightarrow>
          do {
            r \<leftarrow> row_at E (saved_hl_line E);
            _ \<leftarrow> (if length (render r) \<le> length sv \<and> length (render r) \<le> length (hl r)
                  then Some () else None);
            Some ((row_set E (nat (saved_hl_line E))
                     (r\<lparr>hl := take (length (render r)) sv @ drop (length (render r)) (hl r)\<rparr>))
                    \<lparr>saved_hl := None, saved_hl_line := - 1\<rparr>)
          })"

definition editorFindCallback :: "Editor \<Rightarrow> string \<Rightarrow> int \<Rightarrow> Editor option" where
  "editorFindCallback E query key =
     do {
       E1 \<leftarrow> restore_hl E;
       if key = KEY_ENTER \<or> key = KEY_ESC
       then Some (E1\<lparr>last_match := - 1, direction := 1\<rparr>)
       else do {
              let E2 = (if key = KEY_ARROW_RIGHT \<or> key = KEY_ARROW_DOWN then E1\<lparr>direction := 1\<rparr>
                        else if key = KEY_ARROW_LEFT \<or> key = KEY_ARROW_UP then E1\<lparr>direction := - 1\<rparr>
                        else E1\<lparr>last_match := - 1, direction := 1\<rparr>);
              let E3 = (if last_match E2 = - 1 then E2\<lparr>direction := 1\<rparr> else E2);
              find_loop query (nat (numrows E3)) (last_match E3) E3
            }
     }"

section \<open>Output: the state change of a refresh\<close>

definition scroll_rowoff :: "Editor \<Rightarrow> int" where
  "scroll_rowoff E =
     (let rowoff1 = (if cy E < rowoff E then cy E else rowoff E)
      in if cy E \<ge> rowoff1 + screenrows E then cy E - screenrows E + 1 else rowoff1)"

definition scroll_coloff :: "Editor \<Rightarrow> int \<Rightarrow> int" where
  "scroll_coloff E rx1 =
     (let coloff1 = (if rx1 < coloff E then rx1 else coloff E)
      in if rx1 \<ge> coloff1 + screencols E then rx1 - screencols E + 1 else coloff1)"

definition editorScroll :: "Editor \<Rightarrow> Editor option" where
  "editorScroll E =
     do {
       rx1 \<leftarrow> (if cy E < numrows E
                then do { r \<leftarrow> row_at E (cy E); Some (rowCxToRx r (cx E)) }
                else Some 0);
       Some (E\<lparr>rx := rx1, rowoff := scroll_rowoff E, coloff := scroll_coloff E rx1\<rparr>)
     }"

text \<open>\<open>editorRefreshScreen\<close> writes a frame; the only state it changes is that of the scroll.\<close>

definition editorRefreshScreen :: "Editor \<Rightarrow> Editor option" where
  "editorRefreshScreen E = editorScroll E"


section \<open>Input\<close>

text \<open>
  The functions below take the keys that the following calls of \<open>editorReadKey\<close> return.
  \<open>editorPrompt\<close> reads keys in a loop of its own; when the keys run out it is left waiting
  in \<open>editorReadKey\<close>, which is the result \<open>Pending\<close> with the state of that moment.
  The callback argument is \<open>True\<close> for \<open>editorFindCallback\<close> and \<open>False\<close> for \<open>NULL\<close>.
\<close>

datatype prompt_out = Answer "string option" Editor "int list" | Pending Editor

definition prompt_callback :: "bool \<Rightarrow> Editor \<Rightarrow> string \<Rightarrow> int \<Rightarrow> Editor option" where
  "prompt_callback cb E buf c = (if cb then editorFindCallback E buf c else Some E)"

fun editorPrompt :: "bool \<Rightarrow> Editor \<Rightarrow> string \<Rightarrow> int list \<Rightarrow> prompt_out option" where
  "editorPrompt cb E buf [] = do { E1 \<leftarrow> editorRefreshScreen E; Some (Pending E1) }"
| "editorPrompt cb E buf (c # ks) =
     do {
       E1 \<leftarrow> editorRefreshScreen E;
       if c = KEY_DEL \<or> c = CTRL_KEY (CHR ''h'') \<or> c = KEY_BACKSPACE
       then do { E2 \<leftarrow> prompt_callback cb E1 (butlast buf) c; editorPrompt cb E2 (butlast buf) ks }
       else if c = KEY_ESC
       then do { E2 \<leftarrow> prompt_callback cb E1 buf c; Some (Answer None E2 ks) }
       else if c = KEY_ENTER
       then (if buf \<noteq> []
             then do { E2 \<leftarrow> prompt_callback cb E1 buf c; Some (Answer (Some buf) E2 ks) }
             else do { E2 \<leftarrow> prompt_callback cb E1 buf c; editorPrompt cb E2 buf ks })
       else if \<not> iscntrl c \<and> c < 128
       then do { E2 \<leftarrow> prompt_callback cb E1 (buf @ [char_of c]) c;
                 editorPrompt cb E2 (buf @ [char_of c]) ks }
       else do { E2 \<leftarrow> prompt_callback cb E1 buf c; editorPrompt cb E2 buf ks }
     }"

text \<open>
  What a key handler hands back: the state and the unread keys on return to the main loop,
  \<open>exit(0)\<close>, or a prompt that waits for more keys.
\<close>

datatype key_out = Ready Editor "int list" | Exited | InPrompt Editor

definition editorFind :: "Editor \<Rightarrow> int list \<Rightarrow> key_out option" where
  "editorFind E ks =
     do {
       out \<leftarrow> editorPrompt True E [] ks;
       (case out of
          Pending E1 \<Rightarrow> Some (InPrompt E1)
        | Answer (Some q) E1 ks1 \<Rightarrow> Some (Ready E1 ks1)
        | Answer None E1 ks1 \<Rightarrow>
            Some (Ready (E1\<lparr>cx := cx E, cy := cy E, coloff := coloff E, rowoff := rowoff E\<rparr>) ks1))
     }"

text \<open>
  The end of \<open>editorSave\<close>: \<open>written\<close> tells whether \<open>open\<close>, \<open>ftruncate\<close> and \<open>write\<close>
  of the blob \<open>editorRowsToString\<close> all succeeded.
\<close>

definition save_write :: "bool \<Rightarrow> Editor \<Rightarrow> Editor" where
  "save_write written E = (if written then E\<lparr>dirty := 0\<rparr> else E)"

definition editorSave :: "bool \<Rightarrow> Editor \<Rightarrow> int list \<Rightarrow> key_out option" where
  "editorSave written E ks =
     (case filename E of
        Some f \<Rightarrow> Some (Ready (save_write written E) ks)
      | None \<Rightarrow>
          do {
            out \<leftarrow> editorPrompt False E [] ks;
            (case out of
               Pending E1 \<Rightarrow> Some (InPrompt E1)
             | Answer None E1 ks1 \<Rightarrow> Some (Ready E1 ks1)
             | Answer (Some name) E1 ks1 \<Rightarrow>
                 do {
                   E2 \<leftarrow> editorSelectSyntax (E1\<lparr>filename := Some name\<rparr>);
                   Some (Ready (save_write written E2) ks1)
                 })
          })"

text \<open>\<open>editorMoveCursor\<close>: the \<open>switch\<close> on the key, and the final clamp of \<open>cx\<close>.\<close>

definition move_key :: "Editor \<Rightarrow> int \<Rightarrow> Editor option" where
  "move_key E key =
     (if key = KEY_ARROW_LEFT
      then (if cx E \<noteq> 0 then Some (E\<lparr>cx := cx E - 1\<rparr>)
            else if cy E > 0
            then do { r \<leftarrow> row_at E (cy E - 1);
                      Some (E\<lparr>cy := cy E - 1, cx := int (length (chars r))\<rparr>) }
            else Some E)
      else if key = KEY_ARROW_RIGHT
      then (if cy E \<ge> numrows E then Some E
            else do { r \<leftarrow> row_at E (cy E);
                      Some (if cx E < int (length (chars r)) then E\<lparr>cx := cx E + 1\<rparr>
                            else if cx E = int (length (chars r)) then E\<lparr>cy := cy E + 1, cx := 0\<rparr>
                            else E) })
      else if key = KEY_ARROW_UP
      then Some (if cy E \<noteq> 0 then E\<lparr>cy := cy E - 1\<rparr> else E)
      else if key = KEY_ARROW_DOWN
      then Some (if cy E < numrows E then E\<lparr>cy := cy E + 1\<rparr> else E)
      else Some E)"

definition clamp_cx :: "Editor \<Rightarrow> Editor option" where
  "clamp_cx E =
     do {
       rowlen \<leftarrow> (if cy E \<ge> numrows E then Some 0
                  else do { r \<leftarrow> row_at E (cy E); Some (int (length (chars r))) });
       Some (if cx E > rowlen then E\<lparr>cx := rowlen\<rparr> else E)
     }"

definition editorMoveCursor :: "Editor \<Rightarrow> int \<Rightarrow> Editor option" where
  "editorMoveCursor E key = do { E1 \<leftarrow> move_key E key; clamp_cx E1 }"

text \<open>\<open>while (times--) editorMoveCursor(key)\<close> for \<open>times \<ge> 0\<close>.\<close>

fun move_times :: "nat \<Rightarrow> int \<Rightarrow> Editor \<Rightarrow> Editor option" where
  "move_times 0 key E = Some E"
| "move_times (Suc n) key E = do { E1 \<leftarrow> editorMoveCursor E key; move_times n key E1 }"

text \<open>
  \<open>editorProcessKeypress\<close> with \<open>c\<close> the key that its \<open>editorReadKey\<close> returned and \<open>ks\<close>
  the keys after it.  Every path but the Ctrl-Q warning ends in
  \<open>quit_times = QUIT_TIMES\<close>.
\<close>

definition reset_quit :: "Editor \<Rightarrow> int list \<Rightarrow> key_out" where
  "reset_quit E ks = Ready (E\<lparr>quit_times := QUIT_TIMES\<rparr>) ks"

definition reset_quit_out :: "key_out \<Rightarrow> key_out" where
  "reset_quit_out out = (case out of Ready E ks \<Rightarrow> reset_quit E ks | _ \<Rightarrow> out)"

definition editorProcessKeypress :: "bool \<Rightarrow> Editor \<Rightarrow> int \<Rightarrow> int list \<Rightarrow> key_out option" where
  "editorProcessKeypress written E c ks =
     (if c = KEY_ENTER
      then do { E1 \<leftarrow> editorInsertNewline E; Some (reset_quit E1 ks) }
      else if c = CTRL_KEY (CHR ''q'')
      then (if dirty E \<noteq> 0 \<and> quit_times E > 0
            then Some (Ready (E\<lparr>quit_times := quit_times E - 1\<rparr>) ks)
            else Some Exited)
      else if c = CTRL_KEY (CHR ''s'')
      then map_option reset_quit_out (editorSave written E ks)
      else if c = CTRL_KEY (CHR ''f'')
      then map_option reset_quit_out (editorFind E ks)
      else if c = KEY_HOME
      then Some (reset_quit (E\<lparr>cx := 0\<rparr>) ks)
      else if c = KEY_END
      then (if cy E < numrows E
            then do { r \<leftarrow> row_at E (cy E); Some (reset_quit (E\<lparr>cx := int (length (chars r))\<rparr>) ks) }
            else Some (reset_quit E ks))
      else if c = KEY_BACKSPACE \<or> c = CTRL_KEY (CHR ''h'') \<or> c = KEY_DEL
      then do {
             E1 \<leftarrow> (if c = KEY_DEL then editorMoveCursor E KEY_ARROW_RIGHT else Some E);
             E2 \<leftarrow> editorDelChar E1;
             Some (reset_quit E2 ks)
           }
      else if c = KEY_PAGE_UP \<or> c = KEY_PAGE_DOWN
      then do {
             let E1 = (if c = KEY_PAGE_UP then E\<lparr>cy := rowoff E\<rparr>
                       else (let E0 = E\<lparr>cy := rowoff E + screenrows E - 1\<rparr>
                             in if cy E0 > numrows E0 then E0\<lparr>cy := numrows E0\<rparr> else E0));
             _ \<leftarrow> (if screenrows E1 < 0 then None else Some ());
             E2 \<leftarrow> move_times (nat (screenrows E1))
                     (if c = KEY_PAGE_UP then KEY_ARROW_UP else KEY_ARROW_DOWN) E1;
             Some (reset_quit E2 ks)
           }
      else if c = KEY_ARROW_UP \<or> c = KEY_ARROW_DOWN \<or> c = KEY_ARROW_LEFT \<or> c = KEY_ARROW_RIGHT
      then do { E1 \<leftarrow> editorMoveCursor E c; Some (reset_quit E1 ks) }
      else if c = CTRL_KEY (CHR ''l'') \<or> c = KEY_ESC
      then Some (reset_quit E ks)
      else if \<not> iscntrl c \<and> c < 128
      then do { E1 \<leftarrow> editorInsertChar E (char_of c); Some (reset_quit E1 ks) }
      else Some (reset_quit E ks))"

section \<open>Init and the main loop\<close>

text \<open>\<open>initEditor\<close> for a window of \<open>rws\<close> rows and \<open>cls\<close> columns, with the initial statics.\<close>

definition initEditor :: "int \<Rightarrow> int \<Rightarrow> Editor" where
  "initEditor rws cls =
     \<lparr> cx = 0, cy = 0, rx = 0, rowoff = 0, coloff = 0,
       screenrows = rws - 2, screencols = cls,
       numrows = 0, row = [], dirty = 0, filename = None, esyntax = None,
       quit_times = QUIT_TIMES, last_match = - 1, direction = 1,
       saved_hl_line = - 1, saved_hl = None \<rparr>"

text \<open>The state after \<open>initEditor\<close> and the optional \<open>editorOpen(argv[1])\<close> of \<open>main\<close>.\<close>

definition startup :: "int \<Rightarrow> int \<Rightarrow> (string \<times> string) option \<Rightarrow> Editor option" where
  "startup rws cls file =
     (case file of
        None \<Rightarrow> Some (initEditor rws cls)
      | Some (name, content) \<Rightarrow> editorOpen (initEditor rws cls) name content)"

datatype run_out = Waiting Editor | Terminated

lemma editorPrompt_keys:
  "editorPrompt cb E buf ks = Some (Answer a E' ks') \<Longrightarrow> length ks' \<le> length ks"
proof (induction ks arbitrary: E buf)
  case Nil
  then show ?case by (simp split: bind_splits)
next
  case (Cons c ks)
  from Cons.prems show ?case
    by (auto split: bind_splits if_splits dest!: Cons.IH)
qed

lemma editorProcessKeypress_keys:
  assumes "editorProcessKeypress written E c ks = Some (Ready E' ks')"
  shows "length ks' \<le> length ks"
proof -
  have find: "editorFind E ks = Some (Ready E1 ks1) \<Longrightarrow> length ks1 \<le> length ks" for E1 ks1
    by (auto simp: editorFind_def split: bind_splits prompt_out.splits option.splits
             dest: editorPrompt_keys)
  have save: "editorSave written E ks = Some (Ready E1 ks1) \<Longrightarrow> length ks1 \<le> length ks" for E1 ks1
    by (auto simp: editorSave_def split: bind_splits prompt_out.splits option.splits
             dest: editorPrompt_keys)
  have out: "reset_quit_out out = Ready E' ks' \<Longrightarrow> \<exists>E1. out = Ready E1 ks'" for out
    by (cases out) (simp_all add: reset_quit_out_def reset_quit_def)
  show ?thesis
  proof (cases "c = CTRL_KEY (CHR ''s'') \<or> c = CTRL_KEY (CHR ''f'')")
    case True
    with assms show ?thesis
      by (auto simp: editorProcessKeypress_def reset_quit_def
               split: if_splits bind_splits dest!: out dest: find save)
  next
    case False
    with assms show ?thesis
      by (auto simp: editorProcessKeypress_def reset_quit_def Let_def
               split: if_splits bind_splits)
  qed
qed

text \<open>
  The loop of \<open>main\<close> on the keys typed: it ends with the editor waiting for the next key
  (in the main loop or inside a prompt) or terminated by Ctrl-Q.
\<close>

function main_loop :: "bool \<Rightarrow> Editor \<Rightarrow> int list \<Rightarrow> run_out option" where
  "main_loop written E [] = map_option Waiting (editorRefreshScreen E)"
| "main_loop written E (c # ks) =
     (case editorRefreshScreen E of
        None \<Rightarrow> None
      | Some E1 \<Rightarrow>
          (case editorProcessKeypress written E1 c ks of
             None \<Rightarrow> None
           | Some Exited \<Rightarrow> Some Terminated
           | Some (InPrompt E2) \<Rightarrow> Some (Waiting E2)
           | Some (Ready E2 ks2) \<Rightarrow> main_loop written E2 ks2))"
  by pat_completeness auto
termination
proof (relation "measure (\<lambda>(written, E, ks). length ks)")
  show "wf (measure (\<lambda>(written, E, ks). length ks))"
    by (rule wf_measure)
next
  fix written E c ks E1 out E2 ks2
  assume "editorProcessKeypress written E1 c ks = Some out" and "out = Ready E2 ks2"
  then have "length ks2 \<le> length ks"
    using editorProcessKeypress_keys by simp
  then show "((written, E2, ks2), (written, E, c # ks)) \<in> measure (\<lambda>(written, E, ks). length ks)"
    by simp
qed

declare main_loop.simps [simp del]

text \<open>
  The states of the main loop, reached from \<open>main\<close>'s start-up by key presses on a terminal
  of at least three rows, and the states in which the editor can be observed: in the main
  loop, after the refresh, or waiting inside a prompt.
\<close>

inductive at_loop :: "Editor \<Rightarrow> bool" where
  start: "3 \<le> rws \<Longrightarrow> startup rws cls file = Some E \<Longrightarrow> at_loop E"
| key: "at_loop E \<Longrightarrow> editorRefreshScreen E = Some E1 \<Longrightarrow>
        editorProcessKeypress written E1 c ks = Some (Ready E' ks') \<Longrightarrow> at_loop E'"

inductive reachable :: "Editor \<Rightarrow> bool" where
  loop: "at_loop E \<Longrightarrow> reachable E"
| refreshed: "at_loop E \<Longrightarrow> editorRefreshScreen E = Some E1 \<Longrightarrow> reachable E1"
| prompt: "at_loop E \<Longrightarrow> editorRefreshScreen E = Some E1 \<Longrightarrow>
           editorProcessKeypress written E1 c ks = Some (InPrompt E') \<Longrightarrow> reachable E'"

section \<open>The key decoder\<close>

text \<open>
  \<open>read(STDIN_FILENO, &c, 1)\<close> under \<open>VMIN = 0, VTIME = 1\<close> returns after at most a tenth of
  a second: with one byte, with 0 on a timeout, or with -1 (\<open>errno\<close> being \<open>EAGAIN\<close> or
  not).  The input is the list of these results; when it is used up every later \<open>read\<close>
  times out.
\<close>

datatype rd = RdByte char | RdTimeout | RdEAGAIN | RdFail

fun read1 :: "rd list \<Rightarrow> rd \<times> rd list" where
  "read1 [] = (RdTimeout, [])"
| "read1 (x # xs) = (x, xs)"











lemma strncmp_eq_bound:
  assumes "strncmp_eq r i pat" and "i \<le> length r"
  shows "i + length pat \<le> length r"
proof -
  from assms(1) have "length (take (length pat) (drop i r)) = length pat"
    by (simp add: strncmp_eq_def)
  with assms(2) show ?thesis by (simp add: min_def split: if_splits)
qed

lemma length_memset_hl: "i + n \<le> length h \<Longrightarrow> length (memset_hl h i v n) = length h"
  by (simp add: memset_hl_def)

lemma match_keyword_bound:
  "match_keyword ks r i = Some (klen, kw2) \<Longrightarrow> i \<le> length r \<Longrightarrow> i + klen \<le> length r"
proof (induction ks)
  case Nil
  then show ?case by simp
next
  case (Cons k ks)
  show ?case
  proof (cases "match_keyword ks r i = Some (klen, kw2)")
    case True
    then show ?thesis using Cons.IH Cons.prems(2) by simp
  next
    case False
    with Cons.prems have "strncmp_eq r i (take klen k) \<and> klen \<le> length k"
      by (auto simp: Let_def split: if_splits)
    then show ?thesis using strncmp_eq_bound [of r i "take klen k"] Cons.prems(2) by simp
  qed
qed

definition scan_len :: "string \<Rightarrow> scan_step option \<Rightarrow> scan \<Rightarrow> bool" where
  "scan_len r out st = (case out of None \<Rightarrow> True
      | Some (Break st') \<Rightarrow> length (sc_hl st') = length (sc_hl st)
      | Some (Continue st') \<Rightarrow> length (sc_hl st') = length (sc_hl st))"

lemma scan_scs_len:
  "length (sc_hl st) = length r \<Longrightarrow> sc_i st < length r \<Longrightarrow> scan_len r (scan_scs s r st) st"
  by (simp add: scan_len_def scan_scs_def Let_def length_memset_hl)

lemma scan_mlcomment_len:
  "length (sc_hl st) = length r \<Longrightarrow> sc_i st < length r \<Longrightarrow> scan_len r (scan_mlcomment s r st) st"
  by (auto simp: scan_len_def scan_mlcomment_def Let_def length_memset_hl dest: strncmp_eq_bound)

lemma scan_string_len:
  "length (sc_hl st) = length r \<Longrightarrow> sc_i st < length r \<Longrightarrow> scan_len r (scan_string s r st) st"
  by (simp add: scan_len_def scan_string_def Let_def)

lemma scan_number_len:
  "length (sc_hl st) = length r \<Longrightarrow> sc_i st < length r \<Longrightarrow> scan_len r (scan_number s r st) st"
  by (simp add: scan_len_def scan_number_def Let_def)

lemma scan_keyword_len:
  "length (sc_hl st) = length r \<Longrightarrow> sc_i st < length r \<Longrightarrow> scan_len r (scan_keyword s r st) st"
  by (auto simp: scan_len_def scan_keyword_def Let_def length_memset_hl
           split: option.splits dest: match_keyword_bound)

lemma scan_body_len:
  assumes "length (sc_hl st) = length r" and "sc_i st < length r"
  shows "length (sc_hl (case scan_body s r st of Break st' \<Rightarrow> st' | Continue st' \<Rightarrow> st')) = length r"
  using scan_scs_len [OF assms, of s] scan_mlcomment_len [OF assms, of s]
        scan_string_len [OF assms, of s] scan_number_len [OF assms, of s]
        scan_keyword_len [OF assms, of s] assms(1)
  by (simp add: scan_body_def scan_len_def split: option.splits scan_step.splits)

lemma scan_loop_len:
  "length (sc_hl st) = length r \<Longrightarrow> length (sc_hl (scan_loop s r st)) = length r"
proof (induction s r st rule: scan_loop.induct)
  case (1 s r st)
  show ?case
  proof (cases "sc_i st < length r")
    case False
    then show ?thesis using "1.prems" by (simp add: scan_loop.simps [of s r st])
  next
    case True
    note len = scan_body_len [OF "1.prems" True, of s]
    show ?thesis
    proof (cases "scan_body s r st")
      case (Break st')
      then show ?thesis using len True by (simp add: scan_loop.simps [of s r st])
    next
      case (Continue st')
      then have "length (sc_hl st') = length r" using len by simp
      then have "length (sc_hl (scan_loop s r st')) = length r"
        using "1.IH" [OF True Continue] by simp
      then show ?thesis using True Continue by (simp add: scan_loop.simps [of s r st])
    qed
  qed
qed

definition row_rel :: "Row \<Rightarrow> Row \<Rightarrow> bool" where
  "row_rel r r' = (idx r' = idx r \<and> chars r' = chars r \<and> render r' = render r \<and>
                   (length (hl r) = length (render r) \<longrightarrow> length (hl r') = length (render r')))"

definition hl_upd :: "Editor \<Rightarrow> Editor \<Rightarrow> bool" where
  "hl_upd E E' = (E' = E\<lparr>row := row E'\<rparr> \<and> list_all2 row_rel (row E) (row E'))"

definition idx_ok :: "Editor \<Rightarrow> bool" where
  "idx_ok E = (numrows E \<le> int (length (row E)) \<and> (\<forall>i < length (row E). idx (row E ! i) = int i))"

lemma row_rel_refl: "row_rel r r"
  by (simp add: row_rel_def)

lemma row_rel_trans: "row_rel a b \<Longrightarrow> row_rel b c \<Longrightarrow> row_rel a c"
  by (simp add: row_rel_def)

lemma hl_upd_refl: "hl_upd E E"
  by (simp add: hl_upd_def list_all2_refl row_rel_refl)

lemma hl_upd_trans:
  assumes "hl_upd E E1" and "hl_upd E1 E2"
  shows "hl_upd E E2"
proof -
  from assms have 1: "E1 = E\<lparr>row := row E1\<rparr>" and 2: "E2 = E1\<lparr>row := row E2\<rparr>"
    by (simp_all add: hl_upd_def)
  have "E2 = E\<lparr>row := row E2\<rparr>"
    by (subst 2, subst 1) simp
  moreover have "list_all2 row_rel (row E) (row E2)"
    using assms list_all2_trans [of row_rel row_rel row_rel "row E" "row E1" "row E2"] row_rel_trans
    unfolding hl_upd_def by blast
  ultimately show ?thesis by (simp add: hl_upd_def)
qed

lemma hl_upd_length: "hl_upd E E' \<Longrightarrow> length (row E') = length (row E)"
  by (auto simp: hl_upd_def dest: list_all2_lengthD)

lemma hl_upd_nth: "hl_upd E E' \<Longrightarrow> i < length (row E) \<Longrightarrow> row_rel (row E ! i) (row E' ! i)"
  by (auto simp: hl_upd_def dest: list_all2_nthD)

lemma hl_upd_numrows: "hl_upd E E' \<Longrightarrow> numrows E' = numrows E"
proof -
  assume "hl_upd E E'"
  then have "E' = E\<lparr>row := row E'\<rparr>" by (simp add: hl_upd_def)
  then have "numrows E' = numrows (E\<lparr>row := row E'\<rparr>)" by (rule arg_cong)
  then show ?thesis by simp
qed

lemma hl_upd_idx_ok: "hl_upd E E' \<Longrightarrow> idx_ok E \<Longrightarrow> idx_ok E'"
  using hl_upd_length [of E E'] hl_upd_numrows [of E E'] hl_upd_nth [of E E']
  by (auto simp: idx_ok_def row_rel_def)

lemma hl_upd_row_set:
  assumes "p < length (row E)" and "row_rel (row E ! p) r'"
  shows "hl_upd E (row_set E p r')"
proof -
  have "list_all2 row_rel (row E) ((row E)[p := r'])"
    using assms by (auto simp: list_all2_conv_all_nth nth_list_update row_rel_refl)
  then show ?thesis by (simp add: hl_upd_def row_set_def)
qed

lemma editorUpdateSyntax_total:
  assumes "idx_ok E" and "p < length (row E)"
  shows "\<exists>E'. editorUpdateSyntax E p = Some E' \<and> hl_upd E E' \<and>
              length (hl (row E' ! p)) = length (render (row E' ! p))"
  using assms
proof (induction "length (row E) - p" arbitrary: E p rule: less_induct)
  case less
  let ?r = "row E ! p"
  let ?h0 = "replicate (length (render ?r)) HL_NORMAL"
  from less.prems have idxp: "idx ?r = int p" by (simp add: idx_ok_def)
  show ?case
  proof (cases "esyntax E")
    case None
    have u: "hl_upd E (row_set E p (?r\<lparr>hl := ?h0\<rparr>))"
      using less.prems(2) by (intro hl_upd_row_set) (simp_all add: row_rel_def)
    have "editorUpdateSyntax E p = Some (row_set E p (?r\<lparr>hl := ?h0\<rparr>))"
      using None less.prems(2) by (subst editorUpdateSyntax.simps) (simp add: Let_def)
    with u less.prems(2) show ?thesis by (simp add: row_set_def)
  next
    case (Some s)
    define ic0 where "ic0 = (idx ?r > 0 \<and> hl_open_comment (row E ! nat (idx ?r - 1)))"
    have prev: "(if idx ?r > 0 then map_option hl_open_comment (row_at E (idx ?r - 1)) else Some False)
                 = Some ic0"
      using idxp less.prems(2) by (auto simp: ic0_def row_at_def)
    define st where "st = scan_loop s (render ?r) (scan_init (render ?r) ic0)"
    define E1 where "E1 = row_set E p (?r\<lparr>hl := sc_hl st, hl_open_comment := sc_in_comment st\<rparr>)"
    have len: "length (sc_hl st) = length (render ?r)"
      unfolding st_def by (rule scan_loop_len) (simp add: scan_init_def)
    have u1: "hl_upd E E1"
      unfolding E1_def using less.prems(2) len by (intro hl_upd_row_set) (simp_all add: row_rel_def)
    have p1: "length (hl (row E1 ! p)) = length (render (row E1 ! p))"
      using less.prems(2) len by (simp add: E1_def row_set_def)
    have unf: "editorUpdateSyntax E p =
        (if hl_open_comment ?r \<noteq> sc_in_comment st \<and> idx ?r + 1 < numrows E
         then (if idx ?r + 1 < 0 then None else editorUpdateSyntax E1 (nat (idx ?r + 1)))
         else Some E1)"
      using Some less.prems(2) prev
      by (subst editorUpdateSyntax.simps) (simp add: Let_def st_def E1_def)
    show ?thesis
    proof (cases "hl_open_comment ?r \<noteq> sc_in_comment st \<and> idx ?r + 1 < numrows E")
      case False
      then show ?thesis using unf u1 p1 by auto
    next
      case True
      have ok1: "idx_ok E1" using u1 less.prems(1) by (rule hl_upd_idx_ok)
      have l1: "length (row E1) = length (row E)" using u1 by (rule hl_upd_length)
      have lt: "Suc p < length (row E1)"
        using True idxp less.prems(1) l1 by (simp add: idx_ok_def)
      have "length (row E1) - Suc p < length (row E) - p" using lt l1 by simp
      from less.hyps [OF this ok1 lt]
      obtain E2 where E2: "editorUpdateSyntax E1 (Suc p) = Some E2" "hl_upd E1 E2" by blast
      have "editorUpdateSyntax E p = Some E2"
        using unf True idxp E2(1) by (simp add: nat_add_distrib)
      moreover have "hl_upd E E2" using u1 E2(2) by (rule hl_upd_trans)
      moreover have "length (hl (row E2 ! p)) = length (render (row E2 ! p))"
        using hl_upd_nth [OF E2(2), of p] p1 lt by (simp add: row_rel_def)
      ultimately show ?thesis by blast
    qed
  qed
qed

text \<open>
  The invariant of the row array: every row carries its own position in \<open>idx\<close>, its
  \<open>render\<close> is the tab expansion of its \<open>chars\<close>, and its \<open>hl\<close> has one entry per
  rendered character; \<open>numrows\<close> is the number of rows.
\<close>

definition row_ok :: "nat \<Rightarrow> Row \<Rightarrow> bool" where
  "row_ok i r = (idx r = int i \<and> render r = render_loop (chars r) [] \<and>
                 length (hl r) = length (render r))"

definition rowlist_ok :: "Row list \<Rightarrow> bool" where
  "rowlist_ok rs = (\<forall>i < length rs. row_ok i (rs ! i))"

definition rows_ok :: "Editor \<Rightarrow> bool" where
  "rows_ok E = (numrows E = int (length (row E)) \<and> rowlist_ok (row E))"

lemma rows_okD: "rows_ok E \<Longrightarrow> i < length (row E) \<Longrightarrow> row_ok i (row E ! i)"
  by (simp add: rows_ok_def rowlist_ok_def)

lemma rows_ok_numrows: "rows_ok E \<Longrightarrow> numrows E = int (length (row E))"
  by (simp add: rows_ok_def)

lemma hl_upd_rows:
  assumes "hl_upd E E'"
  shows "\<exists>rs. E' = E\<lparr>row := rs\<rparr> \<and> length rs = length (row E) \<and>
              (\<forall>i < length rs. row_rel (row E ! i) (rs ! i))"
proof -
  from assms have "E' = E\<lparr>row := row E'\<rparr>" by (simp add: hl_upd_def)
  moreover have "length (row E') = length (row E)" using assms by (rule hl_upd_length)
  moreover have "\<forall>i < length (row E'). row_rel (row E ! i) (row E' ! i)"
    using hl_upd_nth [OF assms] hl_upd_length [OF assms] by simp
  ultimately show ?thesis by blast
qed

lemma editorUpdateSyntax_rows:
  assumes "numrows E \<le> int (length (row E))" and "p < length (row E)"
    and "\<forall>i < length (row E). idx (row E ! i) = int i"
  shows "\<exists>rs. editorUpdateSyntax E p = Some (E\<lparr>row := rs\<rparr>) \<and> length rs = length (row E) \<and>
              (\<forall>i < length rs. row_rel (row E ! i) (rs ! i)) \<and>
              length (hl (rs ! p)) = length (render (rs ! p))"
proof -
  have "idx_ok E" using assms(1,3) by (simp add: idx_ok_def)
  from editorUpdateSyntax_total [OF this assms(2)]
  obtain E' where E': "editorUpdateSyntax E p = Some E'" "hl_upd E E'"
      "length (hl (row E' ! p)) = length (render (row E' ! p))" by blast
  from hl_upd_rows [OF E'(2)] obtain rs where rs: "E' = E\<lparr>row := rs\<rparr>"
      "length rs = length (row E)" "\<forall>i < length rs. row_rel (row E ! i) (rs ! i)" by blast
  from E'(3) rs(1) have "length (hl (rs ! p)) = length (render (rs ! p))" by simp
  with E'(1) rs show ?thesis by blast
qed

lemma editorUpdateRow_ok:
  assumes "numrows E \<le> int (length (row E))" and "p < length (row E)"
    and "\<forall>i < length (row E). idx (row E ! i) = int i"
    and "\<forall>i < length (row E). i \<noteq> p \<longrightarrow> row_ok i (row E ! i)"
  shows "\<exists>rs. editorUpdateRow E p = Some (E\<lparr>row := rs\<rparr>) \<and> length rs = length (row E) \<and>
              rowlist_ok rs \<and> map chars rs = map chars (row E)"
proof -
  let ?r = "row E ! p"
  define E0 where "E0 = row_set E p (?r\<lparr>render := render_loop (chars ?r) []\<rparr>)"
  have l0: "length (row E0) = length (row E)" by (simp add: E0_def row_set_def)
  have n0: "numrows E0 = numrows E" by (simp add: E0_def row_set_def)
  have nth0: "\<And>i. i < length (row E) \<Longrightarrow>
      row E0 ! i = (if i = p then ?r\<lparr>render := render_loop (chars ?r) []\<rparr> else row E ! i)"
    by (simp add: E0_def row_set_def nth_list_update)
  have idx0: "\<forall>i < length (row E0). idx (row E0 ! i) = int i"
    using assms(3) l0 nth0 by simp
  from editorUpdateSyntax_rows [OF _ _ idx0, of p] assms(1,2) l0 n0
  obtain rs where rs: "editorUpdateSyntax E0 p = Some (E0\<lparr>row := rs\<rparr>)"
      "length rs = length (row E)" "\<forall>i < length rs. row_rel (row E0 ! i) (rs ! i)"
      "length (hl (rs ! p)) = length (render (rs ! p))" by auto
  have run: "editorUpdateRow E p = Some (E\<lparr>row := rs\<rparr>)"
    using rs(1) assms(2) by (simp add: editorUpdateRow_def E0_def row_set_def)
  have rows: "row_ok i (rs ! i) \<and> chars (rs ! i) = chars (row E ! i)"
    if "i < length (row E)" for i
  proof -
    have rel: "row_rel (row E0 ! i) (rs ! i)" using rs(2,3) that by simp
    show ?thesis
    proof (cases "i = p")
      case True
      then show ?thesis using rel nth0 [OF that] rs(4) assms(3) that
        by (simp add: row_rel_def row_ok_def)
    next
      case False
      then show ?thesis using rel nth0 [OF that] assms(4) that
        by (simp add: row_rel_def row_ok_def)
    qed
  qed
  have "rowlist_ok rs" using rows rs(2) by (simp add: rowlist_ok_def)
  moreover have "map chars rs = map chars (row E)"
    using rows rs(2) by (auto simp: list_eq_iff_nth_eq)
  ultimately show ?thesis using run rs(2) by blast
qed

lemma editorInsertRow_ok:
  assumes "rows_ok E" and "0 \<le> at" and "at \<le> numrows E"
  shows "\<exists>rs. editorInsertRow E at s
                = Some (E\<lparr>row := rs, numrows := numrows E + 1, dirty := dirty E + 1\<rparr>) \<and>
              length rs = Suc (length (row E)) \<and> rowlist_ok rs \<and>
              map chars rs = take (nat at) (map chars (row E)) @ s # drop (nat at) (map chars (row E))"
proof -
  define a where "a = nat at"
  define moved where "moved = map (\<lambda>r. r\<lparr>idx := idx r + 1\<rparr>) (take (nat (numrows E) - a) (drop a (row E)))"
  define new where "new = \<lparr>idx = at, chars = s, render = [], hl = [], hl_open_comment = False\<rparr>"
  define E0 where "E0 = E\<lparr>row := take a (row E) @ new # moved\<rparr>"
  have n: "numrows E = int (length (row E))" using assms(1) by (rule rows_ok_numrows)
  have a: "a \<le> length (row E)" "int a = at" using assms(2,3) n by (simp_all add: a_def)
  have moved: "moved = map (\<lambda>r. r\<lparr>idx := idx r + 1\<rparr>) (drop a (row E))"
    using n by (simp add: moved_def)
  have l0: "length (row E0) = Suc (length (row E))" using a by (simp add: E0_def moved)
  have nth0: "row E0 ! i = (if i < a then row E ! i else if i = a then new
                            else (row E ! (i - 1))\<lparr>idx := idx (row E ! (i - 1)) + 1\<rparr>)"
    if "i < Suc (length (row E))" for i
    using that a by (auto simp: E0_def moved nth_append nth_Cons' min_def)
  have idx0: "\<forall>i < length (row E0). idx (row E0 ! i) = int i"
  proof (intro allI impI)
    fix i assume i: "i < length (row E0)"
    then have "i < Suc (length (row E))" using l0 by simp
    from nth0 [OF this] i l0 a rows_okD [OF assms(1), of i] rows_okD [OF assms(1), of "i - 1"]
    show "idx (row E0 ! i) = int i"
      by (auto simp: row_ok_def new_def split: if_splits)
  qed
  have ok0: "\<forall>i < length (row E0). i \<noteq> a \<longrightarrow> row_ok i (row E0 ! i)"
  proof (intro allI impI)
    fix i assume i: "i < length (row E0)" and ne: "i \<noteq> a"
    then have "i < Suc (length (row E))" using l0 by simp
    from nth0 [OF this] i ne l0 a rows_okD [OF assms(1), of i] rows_okD [OF assms(1), of "i - 1"]
    show "row_ok i (row E0 ! i)"
      by (auto simp: row_ok_def split: if_splits)
  qed
  have "numrows E0 \<le> int (length (row E0))" using n l0 by (simp add: E0_def)
  from editorUpdateRow_ok [OF this _ idx0 ok0] a l0
  obtain rs where rs: "editorUpdateRow E0 a = Some (E0\<lparr>row := rs\<rparr>)"
      "length rs = length (row E0)" "rowlist_ok rs" "map chars rs = map chars (row E0)"
    by auto
  have run: "editorInsertRow E at s
               = Some (E\<lparr>row := rs, numrows := numrows E + 1, dirty := dirty E + 1\<rparr>)"
    using assms(2,3) rs(1)
    by (simp add: editorInsertRow_def Let_def a_def [symmetric] moved_def [symmetric]
                  new_def [symmetric] E0_def [symmetric])
       (simp add: E0_def)
  have "map chars (row E0) = take a (map chars (row E)) @ s # drop a (map chars (row E))"
    by (simp add: E0_def moved new_def take_map drop_map comp_def)
  with run rs l0 show ?thesis by (auto simp: a_def)
qed

lemma editorDelRow_ok:
  assumes "rows_ok E" and "0 \<le> at" and "at < numrows E"
  shows "\<exists>rs. editorDelRow E at = E\<lparr>row := rs, numrows := numrows E - 1, dirty := dirty E + 1\<rparr> \<and>
              Suc (length rs) = length (row E) \<and> rowlist_ok rs \<and>
              map chars rs = take (nat at) (map chars (row E)) @ drop (Suc (nat at)) (map chars (row E))"
proof -
  define a where "a = nat at"
  define rs where "rs = take a (row E) @ map (\<lambda>r. r\<lparr>idx := idx r - 1\<rparr>) (drop (Suc a) (row E))"
  have n: "numrows E = int (length (row E))" using assms(1) by (rule rows_ok_numrows)
  have a: "a < length (row E)" using assms(2,3) n by (simp add: a_def)
  have run: "editorDelRow E at = E\<lparr>row := rs, numrows := numrows E - 1, dirty := dirty E + 1\<rparr>"
    using assms(2,3) n by (simp add: editorDelRow_def Let_def rs_def a_def)
  have len: "Suc (length rs) = length (row E)" using a by (simp add: rs_def)
  have nth: "rs ! i = (if i < a then row E ! i
                       else (row E ! Suc i)\<lparr>idx := idx (row E ! Suc i) - 1\<rparr>)"
    if "Suc i < length (row E)" for i
    using that a by (auto simp: rs_def nth_append min_def)
  have "rowlist_ok rs"
    unfolding rowlist_ok_def
  proof (intro allI impI)
    fix i assume "i < length rs"
    then have i: "Suc i < length (row E)" using len by simp
    from nth [OF i] rows_okD [OF assms(1), of i] rows_okD [OF assms(1) i] i
    show "row_ok i (rs ! i)" by (auto simp: row_ok_def)
  qed
  moreover have "map chars rs = take a (map chars (row E)) @ drop (Suc a) (map chars (row E))"
    by (simp add: rs_def take_map drop_map comp_def)
  ultimately show ?thesis using run len by (auto simp: a_def)
qed

lemma rows_ok_set_chars:
  assumes "rows_ok E" and "p < length (row E)"
  shows "\<exists>rs. editorUpdateRow (row_set E p ((row E ! p)\<lparr>chars := cs\<rparr>)) p = Some (E\<lparr>row := rs\<rparr>) \<and>
              length rs = length (row E) \<and> rowlist_ok rs \<and>
              map chars rs = (map chars (row E))[p := cs]"
proof -
  define E0 where "E0 = row_set E p ((row E ! p)\<lparr>chars := cs\<rparr>)"
  have l0: "length (row E0) = length (row E)" by (simp add: E0_def row_set_def)
  have n0: "numrows E0 \<le> int (length (row E0))"
    using rows_ok_numrows [OF assms(1)] by (simp add: E0_def row_set_def)
  have idx0: "\<forall>i < length (row E0). idx (row E0 ! i) = int i"
    using rows_okD [OF assms(1)] assms(2)
    by (auto simp: E0_def row_set_def nth_list_update row_ok_def)
  have ok0: "\<forall>i < length (row E0). i \<noteq> p \<longrightarrow> row_ok i (row E0 ! i)"
    using rows_okD [OF assms(1)] assms(2) by (auto simp: E0_def row_set_def nth_list_update)
  from editorUpdateRow_ok [OF n0 _ idx0 ok0] assms(2) l0
  obtain rs where rs: "editorUpdateRow E0 p = Some (E0\<lparr>row := rs\<rparr>)"
      "length rs = length (row E0)" "rowlist_ok rs" "map chars rs = map chars (row E0)"
    by auto
  have "E0\<lparr>row := rs\<rparr> = E\<lparr>row := rs\<rparr>" by (simp add: E0_def row_set_def)
  moreover have "map chars (row E0) = (map chars (row E))[p := cs]"
    using assms(2) by (simp add: E0_def row_set_def map_update)
  ultimately show ?thesis using rs l0 by (auto simp: E0_def)
qed

lemma rowInsertChar_ok:
  assumes "rows_ok E" and "p < length (row E)"
  shows "\<exists>rs. rowInsertChar E p at c = Some (E\<lparr>row := rs, dirty := dirty E + 1\<rparr>) \<and>
              length rs = length (row E) \<and> rowlist_ok rs \<and>
              map chars rs = (map chars (row E))
                 [p := (let cs = chars (row E ! p);
                            a = (if at < 0 \<or> at > int (length cs) then length cs else nat at)
                        in take a cs @ c # drop a cs)]"
proof -
  define cs' where "cs' = (let cs = chars (row E ! p);
                            a = (if at < 0 \<or> at > int (length cs) then length cs else nat at)
                        in take a cs @ c # drop a cs)"
  from rows_ok_set_chars [OF assms, of cs']
  obtain rs where rs: "editorUpdateRow (row_set E p ((row E ! p)\<lparr>chars := cs'\<rparr>)) p = Some (E\<lparr>row := rs\<rparr>)"
      "length rs = length (row E)" "rowlist_ok rs" "map chars rs = (map chars (row E))[p := cs']"
    by blast
  have "rowInsertChar E p at c = Some (E\<lparr>row := rs, dirty := dirty E + 1\<rparr>)"
    using assms(2) rs(1) by (simp add: rowInsertChar_def Let_def cs'_def)
  with rs show ?thesis unfolding cs'_def by blast
qed

lemma rowAppendString_ok:
  assumes "rows_ok E" and "p < length (row E)"
  shows "\<exists>rs. rowAppendString E p s = Some (E\<lparr>row := rs, dirty := dirty E + 1\<rparr>) \<and>
              length rs = length (row E) \<and> rowlist_ok rs \<and>
              map chars rs = (map chars (row E))[p := chars (row E ! p) @ s]"
proof -
  from rows_ok_set_chars [OF assms, of "chars (row E ! p) @ s"]
  obtain rs where rs: "editorUpdateRow (row_set E p ((row E ! p)\<lparr>chars := chars (row E ! p) @ s\<rparr>)) p
        = Some (E\<lparr>row := rs\<rparr>)"
      "length rs = length (row E)" "rowlist_ok rs"
      "map chars rs = (map chars (row E))[p := chars (row E ! p) @ s]"
    by blast
  have "rowAppendString E p s = Some (E\<lparr>row := rs, dirty := dirty E + 1\<rparr>)"
    using assms(2) rs(1) by (simp add: rowAppendString_def)
  with rs show ?thesis by blast
qed

lemma rowDelChar_ok:
  assumes "rows_ok E" and "p < length (row E)" and "0 \<le> at" and "at < int (length (chars (row E ! p)))"
  shows "\<exists>rs. rowDelChar E p at = Some (E\<lparr>row := rs, dirty := dirty E + 1\<rparr>) \<and>
              length rs = length (row E) \<and> rowlist_ok rs \<and>
              map chars rs = (map chars (row E))
                 [p := take (nat at) (chars (row E ! p)) @ drop (nat at + 1) (chars (row E ! p))]"
proof -
  let ?cs = "take (nat at) (chars (row E ! p)) @ drop (nat at + 1) (chars (row E ! p))"
  from rows_ok_set_chars [OF assms(1,2), of ?cs]
  obtain rs where rs: "editorUpdateRow (row_set E p ((row E ! p)\<lparr>chars := ?cs\<rparr>)) p = Some (E\<lparr>row := rs\<rparr>)"
      "length rs = length (row E)" "rowlist_ok rs" "map chars rs = (map chars (row E))[p := ?cs]"
    by blast
  have "rowDelChar E p at = Some (E\<lparr>row := rs, dirty := dirty E + 1\<rparr>)"
    using assms(2,3,4) rs(1) by (simp add: rowDelChar_def Let_def)
  with rs show ?thesis by blast
qed


lemma hl_upd_esyntax: "hl_upd E E' \<Longrightarrow> esyntax E' = esyntax E"
proof -
  assume "hl_upd E E'"
  then have "E' = E\<lparr>row := row E'\<rparr>" by (simp add: hl_upd_def)
  then have "esyntax E' = esyntax (E\<lparr>row := row E'\<rparr>)" by (rule arg_cong)
  then show ?thesis by simp
qed


text \<open>The refresh is defined when the cursor line can be read, and changes the scroll fields only.\<close>

definition scroll_defined :: "Editor \<Rightarrow> bool" where
  "scroll_defined E = (cy E < numrows E \<longrightarrow> row_at E (cy E) \<noteq> None)"

lemma scroll_defined_upd:
  "scroll_defined (E\<lparr>rx := a\<rparr>) = scroll_defined E"
  "scroll_defined (E\<lparr>rowoff := b\<rparr>) = scroll_defined E"
  "scroll_defined (E\<lparr>coloff := c\<rparr>) = scroll_defined E"
  "scroll_defined (E\<lparr>quit_times := q\<rparr>) = scroll_defined E"
  by (simp_all add: scroll_defined_def row_at_def)

definition scroll_rx :: "Editor \<Rightarrow> int" where
  "scroll_rx E = (if cy E < numrows E then rowCxToRx (row E ! nat (cy E)) (cx E) else 0)"

definition refreshed :: "Editor \<Rightarrow> Editor" where
  "refreshed E = E\<lparr>rx := scroll_rx E, rowoff := scroll_rowoff E,
                     coloff := scroll_coloff E (scroll_rx E)\<rparr>"

lemma editorRefreshScreen_eq:
  "scroll_defined E \<Longrightarrow> editorRefreshScreen E = Some (refreshed E)"
  by (cases "cy E < numrows E")
     (auto simp: editorRefreshScreen_def editorScroll_def scroll_defined_def refreshed_def
                 scroll_rx_def row_at_def split: if_splits)

lemma editorRefreshScreen_defined:
  "editorRefreshScreen E \<noteq> None \<longleftrightarrow> scroll_defined E"
proof
  assume "scroll_defined E"
  then show "editorRefreshScreen E \<noteq> None" by (simp add: editorRefreshScreen_eq)
next
  assume "editorRefreshScreen E \<noteq> None"
  then show "scroll_defined E"
    by (cases "cy E < numrows E"; cases "row_at E (cy E)")
       (simp_all add: editorRefreshScreen_def editorScroll_def scroll_defined_def)
qed

lemma editorRefreshScreen_SomeD:
  "editorRefreshScreen E = Some E1 \<Longrightarrow> scroll_defined E \<and> E1 = refreshed E"
  using editorRefreshScreen_defined [of E] editorRefreshScreen_eq [of E] by auto

lemma scroll_defined_refreshed: "scroll_defined (refreshed E) = scroll_defined E"
  by (simp add: refreshed_def scroll_defined_upd)

lemma rx_advance_gt: "acc < rx_advance c acc"
  by (simp add: rx_advance_def)

lemma rowCxToRx_loop_done: "rowCxToRx_loop cs n n acc = acc"
  by (simp add: rowCxToRx_loop.simps [of cs n n acc])

lemma rowCxToRx_loop_step:
  "j < n \<Longrightarrow> rowCxToRx_loop cs n j acc = rowCxToRx_loop cs n (Suc j) (rx_advance (char_at cs j) acc)"
  by (simp add: rowCxToRx_loop.simps [of cs n j acc])

lemma rowCxToRx_loop_split:
  "j \<le> m \<Longrightarrow> m \<le> n \<Longrightarrow>
   rowCxToRx_loop cs n j acc = rowCxToRx_loop cs n m (rowCxToRx_loop cs m j acc)"
proof (induction "m - j" arbitrary: j acc)
  case 0
  then show ?case by (simp add: rowCxToRx_loop_done)
next
  case (Suc d)
  then have "j < m" "j < n" "d = m - Suc j" by simp_all
  then show ?case
    using Suc.hyps(1) [of "Suc j" "rx_advance (char_at cs j) acc"] Suc.prems
    by (simp add: rowCxToRx_loop_step)
qed

lemma rowCxToRx_loop_ge: "acc \<le> rowCxToRx_loop cs n j acc"
proof (induction "n - j" arbitrary: j acc)
  case 0
  then show ?case by (simp add: rowCxToRx_loop.simps [of cs n j acc])
next
  case (Suc d)
  then have "j < n" "d = n - Suc j" by simp_all
  then show ?case
    using Suc.hyps(1) [of "Suc j" "rx_advance (char_at cs j) acc"] rx_advance_gt [of acc "char_at cs j"]
    by (simp add: rowCxToRx_loop_step)
qed

lemma rowCxToRx_loop_mono:
  "m \<le> n \<Longrightarrow> rowCxToRx_loop cs m 0 0 \<le> rowCxToRx_loop cs n 0 0"
  using rowCxToRx_loop_split [of 0 m n cs 0] rowCxToRx_loop_ge [of "rowCxToRx_loop cs m 0 0" cs n m]
  by simp

lemma rowCxToRx_loop_Suc:
  "rowCxToRx_loop cs (Suc j) 0 0 = rx_advance (char_at cs j) (rowCxToRx_loop cs j 0 0)"
  using rowCxToRx_loop_split [of 0 j "Suc j" cs 0]
  by (simp add: rowCxToRx_loop_step rowCxToRx_loop_done)

lemma rowRxToCx_loop_inverse:
  "j \<le> c \<Longrightarrow> c \<le> length cs \<Longrightarrow>
   rowRxToCx_loop cs (int (rowCxToRx_loop cs c 0 0)) j (rowCxToRx_loop cs j 0 0) = c"
proof (induction "c - j" arbitrary: j)
  case 0
  then have jc: "j = c" by simp
  show ?case
  proof (cases "c < length cs")
    case True
    then show ?thesis
      using rx_advance_gt [of "rowCxToRx_loop cs c 0 0" "cs ! c"]
      by (subst rowRxToCx_loop.simps) (simp add: jc Let_def)
  next
    case False
    then show ?thesis using 0 by (subst rowRxToCx_loop.simps) (simp add: jc)
  qed
next
  case (Suc d)
  then have lt: "j < c" "j < length cs" "d = c - Suc j" by simp_all
  have adv: "rx_advance (cs ! j) (rowCxToRx_loop cs j 0 0) = rowCxToRx_loop cs (Suc j) 0 0"
    using lt(2) by (simp add: rowCxToRx_loop_Suc char_at_def)
  have le: "rowCxToRx_loop cs (Suc j) 0 0 \<le> rowCxToRx_loop cs c 0 0"
    using lt(1) by (intro rowCxToRx_loop_mono) simp
  have "rowRxToCx_loop cs (int (rowCxToRx_loop cs c 0 0)) j (rowCxToRx_loop cs j 0 0) =
        rowRxToCx_loop cs (int (rowCxToRx_loop cs c 0 0)) (Suc j) (rowCxToRx_loop cs (Suc j) 0 0)"
    using lt(2) le by (subst rowRxToCx_loop.simps) (simp add: Let_def adv)
  also have "\<dots> = c"
    using Suc.hyps(1) [of "Suc j"] lt Suc.prems by simp
  finally show ?case .
qed

text \<open>
  Claim C2.  With tab stop 8, for every row: \<open>rowCxToRx(row, 0) = 0\<close>; \<open>rowCxToRx\<close> is
  monotonically non-decreasing in the character column; and \<open>rowRxToCx\<close> inverts it,
  \<open>rowRxToCx(row, rowCxToRx(row, c)) = c\<close> for every column \<open>0 \<le> c \<le> row.size\<close>.
\<close>

theorem cx_rx_roundtrip:
  "rowCxToRx r 0 = 0 \<and>
   (\<forall>c d. 0 \<le> c \<and> c \<le> d \<and> d \<le> int (length (chars r)) \<longrightarrow> rowCxToRx r c \<le> rowCxToRx r d) \<and>
   (\<forall>c. 0 \<le> c \<and> c \<le> int (length (chars r)) \<longrightarrow> rowRxToCx r (rowCxToRx r c) = c)"
proof (intro conjI allI impI)
  show "rowCxToRx r 0 = 0"
    by (simp add: rowCxToRx_def rowCxToRx_loop_done)
next
  fix c d :: int
  assume "0 \<le> c \<and> c \<le> d \<and> d \<le> int (length (chars r))"
  then have "nat c \<le> nat d" by arith
  then show "rowCxToRx r c \<le> rowCxToRx r d"
    by (simp add: rowCxToRx_def rowCxToRx_loop_mono)
next
  fix c :: int
  assume c: "0 \<le> c \<and> c \<le> int (length (chars r))"
  then have "nat c \<le> length (chars r)" by arith
  from rowRxToCx_loop_inverse [OF _ this, of 0]
  have "rowRxToCx_loop (chars r) (int (rowCxToRx_loop (chars r) (nat c) 0 0)) 0 0 = nat c"
    by (simp add: rowCxToRx_loop_done)
  then show "rowRxToCx r (rowCxToRx r c) = c"
    using c by (simp add: rowRxToCx_def rowCxToRx_def)
qed

text \<open>A row with a tab in it, for the concrete instance.\<close>

definition tab_row :: Row where
  "tab_row = \<lparr>idx = 0, chars = [CHR ''a'', TAB, CHR ''b''], render = [], hl = [], hl_open_comment = False\<rparr>"

theorem cx_rx_roundtrip_witness:
  "rowCxToRx tab_row 2 = 8 \<and> rowCxToRx tab_row 1 \<le> rowCxToRx tab_row 2 \<and>
   rowRxToCx tab_row (rowCxToRx tab_row 2) = 2"
proof -
  have len: "int (length (chars tab_row)) = 3" by (simp add: tab_row_def)
  have "rowCxToRx tab_row 2 = 8" by code_simp
  moreover have "rowCxToRx tab_row 1 \<le> rowCxToRx tab_row 2"
    using cx_rx_roundtrip [of tab_row] len by simp
  moreover have "rowRxToCx tab_row (rowCxToRx tab_row 2) = 2"
    using cx_rx_roundtrip [of tab_row] len by simp
  ultimately show ?thesis by simp
qed

text \<open>
  Claim C10.  \<open>editorInsertRow\<close> with an index outside \<open>[0, numrows]\<close> and
  \<open>editorDelRow\<close> with an index outside \<open>[0, numrows)\<close> return with the whole editor
  state unchanged: rows, row count and the modified counter \<open>dirty\<close> included.
\<close>

theorem row_ops_out_of_range:
  "(at < 0 \<or> at > numrows E \<longrightarrow> editorInsertRow E at s = Some E) \<and>
   (at' < 0 \<or> at' \<ge> numrows E \<longrightarrow> editorDelRow E at' = E)"
  by (simp add: editorInsertRow_def editorDelRow_def)

theorem row_ops_out_of_range_witness:
  "editorInsertRow (initEditor 24 80) 1 ''x'' = Some (initEditor 24 80) \<and>
   editorDelRow (initEditor 24 80) 0 = initEditor 24 80"
  using row_ops_out_of_range [of 1 "initEditor 24 80" "''x''" 0]
  by (simp add: initEditor_def)



lemma read1_drop: "snd (read1 rs) = drop 1 rs"
  by (cases rs) simp_all













definition CTRL_Q :: int where "CTRL_Q = CTRL_KEY (CHR ''q'')"

lemma quit_step_warn:
  "dirty E \<noteq> 0 \<Longrightarrow> 0 < quit_times E \<Longrightarrow>
   editorProcessKeypress w E CTRL_Q ks = Some (Ready (E\<lparr>quit_times := quit_times E - 1\<rparr>) ks)"
  by (simp add: editorProcessKeypress_def CTRL_Q_def CTRL_KEY_def KEY_ENTER_def)

lemma quit_step_exit:
  "dirty E = 0 \<or> quit_times E \<le> 0 \<Longrightarrow> editorProcessKeypress w E CTRL_Q ks = Some Exited"
  by (auto simp: editorProcessKeypress_def CTRL_Q_def CTRL_KEY_def KEY_ENTER_def)

lemma quit_run_warn:
  "scroll_defined E \<Longrightarrow> dirty E \<noteq> 0 \<Longrightarrow> int n \<le> quit_times E \<Longrightarrow>
   \<exists>E'. main_loop w E (replicate n CTRL_Q) = Some (Waiting E') \<and>
        quit_times E' = quit_times E - int n \<and> dirty E' = dirty E \<and> row E' = row E"
proof (induction n arbitrary: E)
  case 0
  then show ?case
    by (simp add: main_loop.simps editorRefreshScreen_eq refreshed_def)
next
  case (Suc n)
  define E2 where "E2 = (refreshed E)\<lparr>quit_times := quit_times E - 1\<rparr>"
  have step: "editorProcessKeypress w (refreshed E) CTRL_Q (replicate n CTRL_Q)
                = Some (Ready E2 (replicate n CTRL_Q))"
    using Suc.prems quit_step_warn [of "refreshed E" w "replicate n CTRL_Q"]
    by (simp add: refreshed_def E2_def)
  have "scroll_defined E2" "dirty E2 \<noteq> 0" "int n \<le> quit_times E2"
    using Suc.prems by (simp_all add: E2_def scroll_defined_upd refreshed_def)
  from Suc.IH [OF this]
  obtain E' where "main_loop w E2 (replicate n CTRL_Q) = Some (Waiting E')"
      "quit_times E' = quit_times E2 - int n" "dirty E' = dirty E2" "row E' = row E2"
    by blast
  then show ?case using step Suc.prems(1)
    by (simp add: main_loop.simps editorRefreshScreen_eq E2_def refreshed_def)
qed

lemma quit_run_exit:
  assumes "scroll_defined E" and "dirty E \<noteq> 0" and "int n = quit_times E"
  shows "main_loop w E (replicate n CTRL_Q @ [CTRL_Q]) = Some Terminated"
  using assms
proof (induction n arbitrary: E)
  case 0
  have "editorProcessKeypress w (refreshed E) CTRL_Q [] = Some Exited"
    using 0 by (intro quit_step_exit) (simp add: refreshed_def)
  then show ?case using 0(1) by (simp add: main_loop.simps editorRefreshScreen_eq)
next
  case (Suc n)
  define E2 where "E2 = (refreshed E)\<lparr>quit_times := quit_times E - 1\<rparr>"
  let ?ks = "replicate n CTRL_Q @ [CTRL_Q]"
  have step: "editorProcessKeypress w (refreshed E) CTRL_Q ?ks = Some (Ready E2 ?ks)"
    using Suc.prems quit_step_warn [of "refreshed E" w ?ks]
    by (simp add: refreshed_def E2_def)
  have "scroll_defined E2" "dirty E2 \<noteq> 0" "int n = quit_times E2"
    using Suc.prems by (simp_all add: E2_def scroll_defined_upd refreshed_def)
  from Suc.IH [OF this] show ?case using step Suc.prems(1)
    by (simp add: main_loop.simps editorRefreshScreen_eq)
qed

lemma reset_quit_out_Ready:
  "reset_quit_out out = Ready E' ks' \<Longrightarrow> quit_times E' = QUIT_TIMES"
  by (cases out) (auto simp: reset_quit_out_def reset_quit_def)

lemma other_key_resets:
  assumes "c \<noteq> CTRL_Q" and "editorProcessKeypress w E c ks = Some (Ready E' ks')"
  shows "quit_times E' = QUIT_TIMES"
proof (cases "c = CTRL_KEY (CHR ''s'') \<or> c = CTRL_KEY (CHR ''f'')")
  case True
  with assms show ?thesis
    by (auto simp: editorProcessKeypress_def CTRL_Q_def CTRL_KEY_def KEY_ENTER_def
             split: if_splits dest: reset_quit_out_Ready)
next
  case False
  with assms show ?thesis
    by (auto simp: editorProcessKeypress_def CTRL_Q_def reset_quit_def Let_def
             split: if_splits bind_splits)
qed

text \<open>
  Claim C4, as stated, fails on the count: after typing \<open>a\<close> into the empty buffer (so that
  \<open>dirty\<close> is nonzero), three consecutive Ctrl-Q do not end the editor; the fourth does.
\<close>

theorem three_quits_do_not_exit:
  "main_loop True (initEditor 24 80) [97, CTRL_Q, CTRL_Q, CTRL_Q] \<noteq> Some Terminated \<and>
   main_loop True (initEditor 24 80) [97, CTRL_Q, CTRL_Q, CTRL_Q, CTRL_Q] = Some Terminated"
  by code_simp

text \<open>
  Claim C4, amended.  With unsaved changes (\<open>dirty\<close> nonzero) and the confirmation counter at
  its initial value \<open>QUIT_TIMES = 3\<close>, up to three consecutive Ctrl-Q are answered with a
  warning only, each decrementing the counter and leaving the buffer as it is, and the
  fourth consecutive Ctrl-Q exits.  Any key other than Ctrl-Q that returns to the main loop,
  an edit in particular, resets the counter to \<open>QUIT_TIMES\<close>.
\<close>

theorem quit_confirmation:
  assumes "dirty E \<noteq> 0" and "quit_times E = QUIT_TIMES" and "editorRefreshScreen E \<noteq> None"
  shows "(\<forall>n \<le> 3. \<exists>E'. main_loop w E (replicate n CTRL_Q) = Some (Waiting E') \<and>
                       quit_times E' = QUIT_TIMES - int n \<and> dirty E' = dirty E \<and>
                       row E' = row E) \<and>
         main_loop w E [CTRL_Q, CTRL_Q, CTRL_Q, CTRL_Q] = Some Terminated \<and>
         (\<forall>c ks E0 E' ks'. c \<noteq> CTRL_Q \<and> editorProcessKeypress w E0 c ks = Some (Ready E' ks')
             \<longrightarrow> quit_times E' = QUIT_TIMES)"
proof (intro conjI allI impI)
  have sd: "scroll_defined E" using assms(3) editorRefreshScreen_defined by blast
  {
    fix n :: nat
    assume "n \<le> 3"
    then have "int n \<le> quit_times E" using assms(2) by (simp add: QUIT_TIMES_def)
    from quit_run_warn [OF sd assms(1) this, of w] assms(2)
    show "\<exists>E'. main_loop w E (replicate n CTRL_Q) = Some (Waiting E') \<and>
               quit_times E' = QUIT_TIMES - int n \<and> dirty E' = dirty E \<and> row E' = row E"
      by simp
  }
  have "int 3 = quit_times E" using assms(2) by (simp add: QUIT_TIMES_def)
  from quit_run_exit [OF sd assms(1) this, of w]
  show "main_loop w E [CTRL_Q, CTRL_Q, CTRL_Q, CTRL_Q] = Some Terminated"
    by (simp add: numeral_3_eq_3)
next
  fix c ks E0 E' ks'
  assume "c \<noteq> CTRL_Q \<and> editorProcessKeypress w E0 c ks = Some (Ready E' ks')"
  then show "quit_times E' = QUIT_TIMES" using other_key_resets by blast
qed

text \<open>The state after typing \<open>a\<close> into the empty buffer of a 24 by 80 terminal.\<close>

definition typed_a :: Editor where
  "typed_a = (case main_loop True (initEditor 24 80) [97] of
                Some (Waiting E) \<Rightarrow> E\<lparr>quit_times := QUIT_TIMES\<rparr>
              | _ \<Rightarrow> initEditor 24 80)"

theorem quit_confirmation_witness:
  "dirty typed_a \<noteq> 0 \<and> quit_times typed_a = QUIT_TIMES \<and> editorRefreshScreen typed_a \<noteq> None \<and>
   main_loop True typed_a [CTRL_Q, CTRL_Q, CTRL_Q, CTRL_Q] = Some Terminated \<and>
   (\<exists>E'. main_loop True typed_a (replicate 3 CTRL_Q) = Some (Waiting E') \<and> quit_times E' = 0)"
proof -
  have h: "dirty typed_a \<noteq> 0" "quit_times typed_a = QUIT_TIMES"
          "editorRefreshScreen typed_a \<noteq> None"
    by code_simp+
  from quit_confirmation [OF h, of True] h show ?thesis
    by (auto simp: QUIT_TIMES_def)
qed


























text \<open>
  The search scan in words: line \<open>c\<close> contains the query; the \<open>k\<close>-th line looked at when the
  scan starts behind line \<open>cur\<close> (one past it in the current direction, wrapping at both
  ends of the buffer); and the state that a hit on line \<open>c\<close> leaves.
\<close>

definition line_matches :: "Editor \<Rightarrow> string \<Rightarrow> int \<Rightarrow> bool" where
  "line_matches E q c = (strstr (cstr (render (row E ! nat c))) q \<noteq> None)"

definition visit :: "Editor \<Rightarrow> int \<Rightarrow> nat \<Rightarrow> int" where
  "visit E cur k = (cur + direction E * (int k + 1)) mod numrows E"

definition found_at :: "Editor \<Rightarrow> string \<Rightarrow> int \<Rightarrow> Editor" where
  "found_at E q c =
     (let r = row E ! nat c;
          m = the (strstr (cstr (render r)) q)
      in (row_set E (nat c) (r\<lparr>hl := memset_hl (hl r) m HL_MATCH (length q)\<rparr>))
           \<lparr>last_match := c, cy := c, cx := rowRxToCx r (int m), rowoff := numrows E,
            saved_hl_line := c, saved_hl := Some (take (length (render r)) (hl r))\<rparr>)"


lemma wrap_step:
  assumes "0 < N" and "d = 1 \<or> d = - 1" and "- 1 \<le> cur" and "cur < N" and "cur = - 1 \<longrightarrow> d = 1"
  shows "(let c1 = cur + d; c2 = (if c1 = - 1 then N - 1 else c1)
          in if c2 = N then 0 else c2) = (cur + d) mod (N::int)"
proof (cases "d = 1")
  case True
  show ?thesis
  proof (cases "cur + 1 = N")
    case True
    then show ?thesis using \<open>d = 1\<close> assms(1) by (simp add: Let_def)
  next
    case False
    then have "0 \<le> cur + 1" "cur + 1 < N" using assms(3,4) by simp_all
    then show ?thesis using \<open>d = 1\<close> False by (simp add: Let_def)
  qed
next
  case False
  then have d: "d = - 1" and c: "0 \<le> cur" using assms(2,3,5) by auto
  show ?thesis
  proof (cases "cur = 0")
    case True
    then show ?thesis using d assms(1) by (simp add: Let_def zmod_minus1)
  next
    case False
    then have "0 \<le> cur - 1" "cur - 1 < N" using c assms(4) by simp_all
    then show ?thesis using d False assms(4) by (simp add: Let_def)
  qed
qed

lemma visit_shift:
  "visit E (visit E cur 0) k = visit E cur (Suc k)"
proof -
  have "((cur + direction E) mod numrows E + direction E * (int k + 1)) mod numrows E
        = (cur + direction E + direction E * (int k + 1)) mod numrows E"
    by (rule mod_add_left_eq)
  then show ?thesis by (simp add: visit_def algebra_simps)
qed

lemma find_map_Suc: "find P (map Suc xs) = map_option Suc (find (\<lambda>k. P (Suc k)) xs)"
  by (induction xs) simp_all

lemma find_loop_scan:
  assumes "numrows E = int (length (row E))" and "direction E = 1 \<or> direction E = - 1"
    and "- 1 \<le> cur" and "cur < numrows E" and "cur = - 1 \<longrightarrow> direction E = 1"
    and "j \<le> length (row E)"
  shows "find_loop q j cur E =
           (case find (\<lambda>k. line_matches E q (visit E cur k)) [0..<j] of
              None \<Rightarrow> Some E
            | Some k \<Rightarrow> Some (found_at E q (visit E cur k)))"
  using assms(3,4,5,6)
proof (induction j arbitrary: cur)
  case 0
  then show ?case by simp
next
  case (Suc j)
  have "0 < length (row E)" using Suc.prems(4) by arith
  then have N: "0 < numrows E" using assms(1) by arith
  define c3 where "c3 = visit E cur 0"
  have wrap: "(let c1 = cur + direction E; c2 = (if c1 = - 1 then numrows E - 1 else c1)
               in if c2 = numrows E then 0 else c2) = c3"
    using wrap_step [OF N assms(2) Suc.prems(1,2,3)] by (simp add: c3_def visit_def)
  have range: "0 \<le> c3" "c3 < numrows E" using N by (simp_all add: c3_def visit_def)
  then have rowat: "row_at E c3 = Some (row E ! nat c3)"
    using assms(1) by (simp add: row_at_def)
  have upt: "[0..<Suc j] = 0 # map Suc [0..<j]"
    by (simp add: upt_conv_Cons map_Suc_upt del: upt_Suc)
  show ?case
  proof (cases "line_matches E q c3")
    case True
    then obtain m where m: "strstr (cstr (render (row E ! nat c3))) q = Some m"
      by (auto simp: line_matches_def)
    have "find_loop q (Suc j) cur E = Some (found_at E q c3)"
      using wrap rowat m
      by (simp add: Let_def found_at_def)
    moreover have "find (\<lambda>k. line_matches E q (visit E cur k)) [0..<Suc j] = Some 0"
      using True by (simp add: upt c3_def del: upt_Suc)
    ultimately show ?thesis by (simp add: c3_def del: upt_Suc find_loop.simps)
  next
    case False
    then have m: "strstr (cstr (render (row E ! nat c3))) q = None"
      by (simp add: line_matches_def)
    have "find_loop q (Suc j) cur E = find_loop q j c3 E"
      using wrap rowat m by (simp add: Let_def)
    also have "\<dots> = (case find (\<lambda>k. line_matches E q (visit E c3 k)) [0..<j] of
              None \<Rightarrow> Some E
            | Some k \<Rightarrow> Some (found_at E q (visit E c3 k)))"
      using Suc.IH [of c3] range Suc.prems(4) by simp
    also have "\<dots> = (case find (\<lambda>k. line_matches E q (visit E cur k)) [0..<Suc j] of
              None \<Rightarrow> Some E
            | Some k \<Rightarrow> Some (found_at E q (visit E cur k)))"
      using False
      by (simp add: upt find_map_Suc c3_def visit_shift del: upt_Suc split: option.split)
    finally show ?thesis .
  qed
qed





text \<open>
  The cursor stays inside the text: \<open>cy\<close> is a line or the position behind the last line,
  and \<open>cx\<close> is a column of that line or the position behind its last character.
\<close>

definition cursor_ok :: "Editor \<Rightarrow> bool" where
  "cursor_ok E = (0 \<le> cy E \<and> cy E \<le> numrows E \<and> 0 \<le> cx E \<and>
                  cx E \<le> (if cy E < numrows E then int (length (chars (row E ! nat (cy E)))) else 0))"

text \<open>The fields that the editing operations leave alone.\<close>

definition rest :: "Editor \<Rightarrow> Editor" where
  "rest E = E\<lparr>cx := 0, cy := 0, row := [], numrows := 0, dirty := 0\<rparr>"

lemma rest_fields:
  assumes "rest E' = rest E"
  shows "rx E' = rx E" "rowoff E' = rowoff E" "coloff E' = coloff E"
    "screenrows E' = screenrows E" "screencols E' = screencols E" "filename E' = filename E"
    "esyntax E' = esyntax E" "quit_times E' = quit_times E" "last_match E' = last_match E"
    "direction E' = direction E" "saved_hl_line E' = saved_hl_line E" "saved_hl E' = saved_hl E"
  using arg_cong [OF assms, of rx] arg_cong [OF assms, of rowoff] arg_cong [OF assms, of coloff]
    arg_cong [OF assms, of screenrows] arg_cong [OF assms, of screencols]
    arg_cong [OF assms, of filename] arg_cong [OF assms, of esyntax]
    arg_cong [OF assms, of quit_times] arg_cong [OF assms, of last_match]
    arg_cong [OF assms, of direction] arg_cong [OF assms, of saved_hl_line]
    arg_cong [OF assms, of saved_hl]
  by (simp_all add: rest_def)

lemma rows_ok_upd:
  "length rs = n \<Longrightarrow> rowlist_ok rs \<Longrightarrow> rows_ok (E\<lparr>row := rs, numrows := int n, dirty := d\<rparr>)"
  "rowlist_ok rs \<Longrightarrow> numrows E = int (length rs) \<Longrightarrow> rows_ok (E\<lparr>row := rs, dirty := d\<rparr>)"
  "rowlist_ok rs \<Longrightarrow> numrows E = int (length rs) \<Longrightarrow> rows_ok (E\<lparr>row := rs\<rparr>)"
  by (simp_all add: rows_ok_def)

lemma rows_ok_cursor_upd [simp]:
  "rows_ok (E\<lparr>cx := a\<rparr>) = rows_ok E" "rows_ok (E\<lparr>cy := b\<rparr>) = rows_ok E"
  by (simp_all add: rows_ok_def)

lemma row_at_Some: "rows_ok E \<Longrightarrow> 0 \<le> j \<Longrightarrow> j < numrows E \<Longrightarrow> row_at E j = Some (row E ! nat j)"
  by (simp add: row_at_def rows_ok_def)

lemma map_chars_nth:
  assumes "map chars rs' = map chars rs" and "i < length rs"
  shows "chars (rs' ! i) = chars (rs ! i)"
proof -
  have "length rs' = length rs" using assms(1) by (rule map_eq_imp_length_eq)
  then have "chars (rs' ! i) = map chars rs' ! i" using assms(2) by simp
  also have "\<dots> = map chars rs ! i" by (simp only: assms(1))
  also have "\<dots> = chars (rs ! i)" using assms(2) by simp
  finally show ?thesis .
qed

lemma chars_nth: "i < length rs \<Longrightarrow> chars (rs ! i) = map chars rs ! i"
  by simp

lemma editorInsertChar_ok:
  assumes "rows_ok E" and "cursor_ok E"
  shows "\<exists>E'. editorInsertChar E c = Some E' \<and> rows_ok E' \<and> cursor_ok E' \<and> rest E' = rest E"
proof -
  have n: "numrows E = int (length (row E))" using assms(1) by (rule rows_ok_numrows)
  obtain E1 where E1: "(if cy E = numrows E then editorInsertRow E (numrows E) [] else Some E) = Some E1"
      "rows_ok E1" "cy E1 = cy E" "cx E1 = cx E" "cy E1 < numrows E1" "rest E1 = rest E"
      "cx E1 \<le> int (length (chars (row E1 ! nat (cy E1))))"
  proof (cases "cy E = numrows E")
    case True
    from editorInsertRow_ok [OF assms(1), of "numrows E" "[]"] n
    obtain rs where rs: "editorInsertRow E (numrows E) []
          = Some (E\<lparr>row := rs, numrows := numrows E + 1, dirty := dirty E + 1\<rparr>)"
        "length rs = Suc (length (row E))" "rowlist_ok rs"
        "map chars rs = map chars (row E) @ [Nil]"
      by auto
    let ?E1 = "E\<lparr>row := rs, numrows := numrows E + 1, dirty := dirty E + 1\<rparr>"
    have "chars (rs ! length (row E)) = []"
      using chars_nth [of "length (row E)" rs] rs(2,4) by (simp add: nth_append)
    then have "cx ?E1 \<le> int (length (chars (row ?E1 ! nat (cy ?E1))))"
      using True assms(2) n by (simp add: cursor_ok_def)
    moreover have "rows_ok ?E1" using rs(2,3) n by (simp add: rows_ok_def)
    ultimately show ?thesis using that [of ?E1] True rs(1) by (simp add: rest_def)
  next
    case False
    then have "cy E < numrows E" using assms(2) by (simp add: cursor_ok_def)
    then show ?thesis using that [of E] assms False by (simp add: cursor_ok_def)
  qed
  have n1: "numrows E1 = int (length (row E1))" using E1(2) by (rule rows_ok_numrows)
  have cy1: "0 \<le> cy E1" using E1(3) assms(2) by (simp add: cursor_ok_def)
  then have p: "nat (cy E1) < length (row E1)" using E1(5) n1 by simp
  have ra: "row_at E1 (cy E1) = Some (row E1 ! nat (cy E1))"
    using row_at_Some [OF E1(2) cy1 E1(5)] .
  from rowInsertChar_ok [OF E1(2) p, of "cx E1" c]
  obtain rs where rs: "rowInsertChar E1 (nat (cy E1)) (cx E1) c = Some (E1\<lparr>row := rs, dirty := dirty E1 + 1\<rparr>)"
      "length rs = length (row E1)" "rowlist_ok rs"
      "map chars rs = (map chars (row E1))
         [nat (cy E1) := (let cs = chars (row E1 ! nat (cy E1));
                              a = (if cx E1 < 0 \<or> cx E1 > int (length cs) then length cs else nat (cx E1))
                          in take a cs @ c # drop a cs)]"
    by blast
  define E' where "E' = E1\<lparr>row := rs, dirty := dirty E1 + 1, cx := cx E1 + 1\<rparr>"
  have run: "editorInsertChar E c = Some E'"
    using E1(1) ra rs(1) by (simp add: editorInsertChar_def E'_def)
  have cx1: "0 \<le> cx E1" using E1(4) assms(2) by (simp add: cursor_ok_def)
  have "nat (cx E1) \<le> length (chars (row E1 ! nat (cy E1)))" using cx1 E1(7) by arith
  moreover have "chars (rs ! nat (cy E1)) =
      take (nat (cx E1)) (chars (row E1 ! nat (cy E1))) @ c # drop (nat (cx E1)) (chars (row E1 ! nat (cy E1)))"
    using chars_nth [of "nat (cy E1)" rs] rs(2,4) p cx1 E1(7) by (simp add: Let_def)
  ultimately have "length (chars (rs ! nat (cy E1))) = Suc (length (chars (row E1 ! nat (cy E1))))"
    by simp
  then have "cursor_ok E'"
    using cy1 E1(5,7) cx1 by (simp add: cursor_ok_def E'_def)
  moreover have "rows_ok E'" using rs(2,3) n1 by (simp add: E'_def rows_ok_def)
  moreover have "rest E' = rest E" using E1(6) by (simp add: E'_def rest_def)
  ultimately show ?thesis using run by blast
qed

lemma editorInsertNewline_ok:
  assumes "rows_ok E" and "cursor_ok E"
  shows "\<exists>E'. editorInsertNewline E = Some E' \<and> rows_ok E' \<and> cursor_ok E' \<and> rest E' = rest E"
proof -
  have n: "numrows E = int (length (row E))" using assms(1) by (rule rows_ok_numrows)
  have cur: "0 \<le> cy E" "cy E \<le> numrows E" "0 \<le> cx E" using assms(2) by (simp_all add: cursor_ok_def)
  show ?thesis
  proof (cases "cx E = 0")
    case True
    from editorInsertRow_ok [OF assms(1) cur(1,2), of "[]"]
    obtain rs where rs: "editorInsertRow E (cy E) []
          = Some (E\<lparr>row := rs, numrows := numrows E + 1, dirty := dirty E + 1\<rparr>)"
        "length rs = Suc (length (row E))" "rowlist_ok rs"
      by blast
    define E' where "E' = E\<lparr>row := rs, numrows := numrows E + 1, dirty := dirty E + 1,
                            cy := cy E + 1, cx := 0\<rparr>"
    have "editorInsertNewline E = Some E'"
      using True rs(1) by (simp add: editorInsertNewline_def E'_def)
    moreover have "rows_ok E'" using rs(2,3) n by (simp add: E'_def rows_ok_def)
    moreover have "cursor_ok E'" using cur by (simp add: E'_def cursor_ok_def)
    moreover have "rest E' = rest E" by (simp add: E'_def rest_def)
    ultimately show ?thesis by blast
  next
    case False
    then have lt: "cy E < numrows E" and cxle: "cx E \<le> int (length (chars (row E ! nat (cy E))))"
      using assms(2) by (auto simp: cursor_ok_def split: if_splits)
    let ?r = "row E ! nat (cy E)"
    have ra: "row_at E (cy E) = Some ?r" using row_at_Some [OF assms(1) cur(1) lt] .
    from editorInsertRow_ok [OF assms(1), of "cy E + 1" "drop (nat (cx E)) (chars ?r)"] cur lt
    obtain rs where rs: "editorInsertRow E (cy E + 1) (drop (nat (cx E)) (chars ?r))
          = Some (E\<lparr>row := rs, numrows := numrows E + 1, dirty := dirty E + 1\<rparr>)"
        "length rs = Suc (length (row E))" "rowlist_ok rs"
        "map chars rs = take (nat (cy E + 1)) (map chars (row E)) @ drop (nat (cx E)) (chars ?r)
                          # drop (nat (cy E + 1)) (map chars (row E))"
      by auto
    define E1 where "E1 = E\<lparr>row := rs, numrows := numrows E + 1, dirty := dirty E + 1\<rparr>"
    have ok1: "rows_ok E1" using rs(2,3) n by (simp add: E1_def rows_ok_def)
    have p1: "nat (cy E) < length (row E1)" using lt n cur rs(2) by (simp add: E1_def)
    have ra1: "row_at E1 (cy E1) = Some (row E1 ! nat (cy E))"
      using row_at_Some [OF ok1, of "cy E"] cur lt by (simp add: E1_def)
    from rows_ok_set_chars [OF ok1 p1, of "take (nat (cx E)) (chars (row E1 ! nat (cy E)))"]
    obtain rs2 where rs2: "editorUpdateRow (row_set E1 (nat (cy E))
              ((row E1 ! nat (cy E))\<lparr>chars := take (nat (cx E)) (chars (row E1 ! nat (cy E)))\<rparr>))
            (nat (cy E)) = Some (E1\<lparr>row := rs2\<rparr>)"
        "length rs2 = length (row E1)" "rowlist_ok rs2"
      by blast
    define E' where "E' = E1\<lparr>row := rs2, cy := cy E + 1, cx := 0\<rparr>"
    have "editorInsertNewline E = Some E'"
      using False ra cur(3) cxle rs(1) ra1 rs2(1)
      by (simp add: editorInsertNewline_def E'_def E1_def [symmetric]) (simp add: E1_def)
    moreover have "rows_ok E'" using rs2(2,3) rs(2) n by (simp add: E'_def E1_def rows_ok_def)
    moreover have "cursor_ok E'" using cur lt by (simp add: E'_def E1_def cursor_ok_def)
    moreover have "rest E' = rest E" by (simp add: E'_def E1_def rest_def)
    ultimately show ?thesis by blast
  qed
qed

lemma editorDelChar_ok:
  assumes "rows_ok E" and "cursor_ok E"
  shows "\<exists>E'. editorDelChar E = Some E' \<and> rows_ok E' \<and> cursor_ok E' \<and> rest E' = rest E"
proof -
  have n: "numrows E = int (length (row E))" using assms(1) by (rule rows_ok_numrows)
  have cur: "0 \<le> cy E" "cy E \<le> numrows E" "0 \<le> cx E" using assms(2) by (simp_all add: cursor_ok_def)
  show ?thesis
  proof (cases "cy E = numrows E \<or> (cx E = 0 \<and> cy E = 0)")
    case True
    then have "editorDelChar E = Some E" by (auto simp: editorDelChar_def)
    then show ?thesis using assms by blast
  next
    case False
    then have lt: "cy E < numrows E" and cxle: "cx E \<le> int (length (chars (row E ! nat (cy E))))"
      using assms(2) by (auto simp: cursor_ok_def split: if_splits)
    let ?r = "row E ! nat (cy E)"
    have p: "nat (cy E) < length (row E)" using lt n cur by simp
    have ra: "row_at E (cy E) = Some ?r" using row_at_Some [OF assms(1) cur(1) lt] .
    show ?thesis
    proof (cases "cx E > 0")
      case True
      from rowDelChar_ok [OF assms(1) p, of "cx E - 1"] True cxle
      obtain rs where rs: "rowDelChar E (nat (cy E)) (cx E - 1) = Some (E\<lparr>row := rs, dirty := dirty E + 1\<rparr>)"
          "length rs = length (row E)" "rowlist_ok rs"
          "map chars rs = (map chars (row E))
             [nat (cy E) := take (nat (cx E - 1)) (chars ?r) @ drop (nat (cx E - 1) + 1) (chars ?r)]"
        by auto
      define E' where "E' = E\<lparr>row := rs, dirty := dirty E + 1, cx := cx E - 1\<rparr>"
      have "editorDelChar E = Some E'"
        using False True ra rs(1) by (simp add: editorDelChar_def E'_def)
      moreover have "rows_ok E'" using rs(2,3) n by (simp add: E'_def rows_ok_def)
      moreover have "length (chars (rs ! nat (cy E))) = length (chars ?r) - 1"
        using chars_nth [of "nat (cy E)" rs] rs(2,4) p True cxle by simp
      then have "cursor_ok E'" using cur lt True cxle by (simp add: E'_def cursor_ok_def)
      moreover have "rest E' = rest E" by (simp add: E'_def rest_def)
      ultimately show ?thesis by blast
    next
      case cx0: False
      then have cx: "cx E = 0" and cy: "0 < cy E" using cur False by auto
      let ?prev = "row E ! nat (cy E - 1)"
      have pp: "nat (cy E - 1) < length (row E)" using p cy by simp
      have rap: "row_at E (cy E - 1) = Some ?prev"
        using row_at_Some [OF assms(1), of "cy E - 1"] cy lt by simp
      define E0 where "E0 = E\<lparr>cx := int (length (chars ?prev))\<rparr>"
      have ok0: "rows_ok E0" using assms(1) by (simp add: E0_def)
      from rowAppendString_ok [OF ok0, of "nat (cy E - 1)" "chars ?r"] pp
      obtain rs where rs: "rowAppendString E0 (nat (cy E - 1)) (chars ?r)
            = Some (E0\<lparr>row := rs, dirty := dirty E0 + 1\<rparr>)"
          "length rs = length (row E)" "rowlist_ok rs"
          "map chars rs = (map chars (row E))[nat (cy E - 1) := chars ?prev @ chars ?r]"
        by (auto simp: E0_def)
      define E1 where "E1 = E0\<lparr>row := rs, dirty := dirty E0 + 1\<rparr>"
      have ok1: "rows_ok E1" using rs(2,3) n by (simp add: E1_def E0_def rows_ok_def)
      have cy1: "cy E1 = cy E" "numrows E1 = numrows E" by (simp_all add: E1_def E0_def)
      from editorDelRow_ok [OF ok1, of "cy E"] cur lt cy1
      obtain rs2 where rs2: "editorDelRow E1 (cy E)
            = E1\<lparr>row := rs2, numrows := numrows E1 - 1, dirty := dirty E1 + 1\<rparr>"
          "Suc (length rs2) = length (row E1)" "rowlist_ok rs2"
          "map chars rs2 = take (nat (cy E)) (map chars (row E1)) @ drop (Suc (nat (cy E))) (map chars (row E1))"
        by auto
      define E' where "E' = E1\<lparr>row := rs2, numrows := numrows E1 - 1, dirty := dirty E1 + 1,
                               cy := cy E - 1\<rparr>"
      have branch: "editorDelChar E =
          do { r \<leftarrow> row_at E (cy E);
               prev \<leftarrow> row_at E (cy E - 1);
               E1 \<leftarrow> rowAppendString (E\<lparr>cx := int (length (chars prev))\<rparr>) (nat (cy E - 1)) (chars r);
               Some ((editorDelRow E1 (cy E1))\<lparr>cy := cy E1 - 1\<rparr>) }"
      proof -
        have c1: "cy E \<noteq> numrows E" using lt by simp
        have c2: "\<not> (cx E = 0 \<and> cy E = 0)" using cy by simp
        show ?thesis unfolding editorDelChar_def by (simp only: c1 c2 cx0 if_False)
      qed
      have "rowAppendString (E\<lparr>cx := int (length (chars ?prev))\<rparr>) (nat (cy E - 1)) (chars ?r) = Some E1"
        using rs(1) by (simp add: E1_def E0_def)
      then have "editorDelChar E = Some ((editorDelRow E1 (cy E1))\<lparr>cy := cy E1 - 1\<rparr>)"
        by (simp add: branch ra rap)
      then have "editorDelChar E = Some E'"
        by (simp add: cy1 rs2(1) E'_def)
      moreover have "rows_ok E'"
        using rs2(2,3) rs(2) n by (simp add: E'_def E1_def E0_def rows_ok_def)
      moreover have "cursor_ok E'"
      proof -
        have "row E1 = rs" by (simp add: E1_def)
        then have "map chars rs2 ! nat (cy E - 1) = chars ?prev @ chars ?r"
          using rs2(4) rs(4) rs(2) pp cy p by (simp add: nth_append nat_diff_distrib)
        moreover have "nat (cy E - 1) < length rs2" using rs2(2) rs(2) p cy by (simp add: E1_def)
        ultimately have "chars (rs2 ! nat (cy E - 1)) = chars ?prev @ chars ?r"
          by simp
        then show ?thesis
          using cur lt cy by (simp add: E'_def E1_def E0_def cursor_ok_def)
      qed
      moreover have "rest E' = rest E" by (simp add: E'_def E1_def E0_def rest_def)
      ultimately show ?thesis by blast
    qed
  qed
qed

definition screen_ok :: "Editor \<Rightarrow> bool" where
  "screen_ok E = (1 \<le> screenrows E \<and> 0 \<le> rowoff E)"

text \<open>The cursor fields apart, two states are the same.\<close>

definition nocursor :: "Editor \<Rightarrow> Editor" where
  "nocursor E = E\<lparr>cx := 0, cy := 0\<rparr>"

lemma nocursor_fields:
  assumes "nocursor E' = nocursor E"
  shows "row E' = row E" "numrows E' = numrows E" "dirty E' = dirty E" "rest E' = rest E"
  using arg_cong [OF assms, of row] arg_cong [OF assms, of numrows] arg_cong [OF assms, of dirty]
    arg_cong [OF assms, of rest]
  by (simp_all add: nocursor_def rest_def)

lemma nocursor_rows_ok: "nocursor E' = nocursor E \<Longrightarrow> rows_ok E' = rows_ok E"
  using nocursor_fields(1,2) [of E' E] by (simp add: rows_ok_def)

lemma nocursor_upd [simp]:
  "nocursor (E\<lparr>cx := a\<rparr>) = nocursor E" "nocursor (E\<lparr>cy := b\<rparr>) = nocursor E"
  by (simp_all add: nocursor_def)

definition cursor_weak :: "Editor \<Rightarrow> bool" where
  "cursor_weak E = (0 \<le> cy E \<and> cy E \<le> numrows E \<and> 0 \<le> cx E)"

lemma cursor_ok_weak: "cursor_ok E \<Longrightarrow> cursor_weak E"
  by (simp add: cursor_ok_def cursor_weak_def)

lemma cursor_ok_cong:
  assumes "cx E' = cx E" and "cy E' = cy E" and "numrows E' = numrows E"
    and "cy E < numrows E \<Longrightarrow>
         length (chars (row E' ! nat (cy E))) = length (chars (row E ! nat (cy E)))"
  shows "cursor_ok E' = cursor_ok E"
  using assms by (cases "cy E < numrows E") (simp_all add: cursor_ok_def)

lemma move_key_ok:
  assumes "rows_ok E" and "cursor_weak E"
  shows "\<exists>E'. move_key E key = Some E' \<and> cursor_weak E' \<and> nocursor E' = nocursor E"
proof -
  have n: "numrows E = int (length (row E))" using assms(1) by (rule rows_ok_numrows)
  have cur: "0 \<le> cy E" "cy E \<le> numrows E" "0 \<le> cx E"
    using assms(2) by (simp_all add: cursor_weak_def)
  consider (left) "key = KEY_ARROW_LEFT" | (right) "key = KEY_ARROW_RIGHT"
    | (up) "key = KEY_ARROW_UP" | (down) "key = KEY_ARROW_DOWN"
    | (other) "key \<noteq> KEY_ARROW_LEFT" "key \<noteq> KEY_ARROW_RIGHT" "key \<noteq> KEY_ARROW_UP"
        "key \<noteq> KEY_ARROW_DOWN"
    by blast
  then show ?thesis
  proof cases
    case left
    show ?thesis
    proof (cases "cx E \<noteq> 0")
      case True
      then have "move_key E key = Some (E\<lparr>cx := cx E - 1\<rparr>)" using left by (simp add: move_key_def)
      moreover have "cursor_weak (E\<lparr>cx := cx E - 1\<rparr>)" using cur True by (simp add: cursor_weak_def)
      ultimately show ?thesis by (intro exI [of _ "E\<lparr>cx := cx E - 1\<rparr>"]) simp
    next
      case False
      show ?thesis
      proof (cases "cy E > 0")
        case True
        have "row_at E (cy E - 1) = Some (row E ! nat (cy E - 1))"
          using row_at_Some [OF assms(1), of "cy E - 1"] True cur by simp
        then have "move_key E key = Some (E\<lparr>cy := cy E - 1, cx := int (length (chars (row E ! nat (cy E - 1))))\<rparr>)"
          using left False True by (simp add: move_key_def)
        moreover have "cursor_weak (E\<lparr>cy := cy E - 1, cx := int (length (chars (row E ! nat (cy E - 1))))\<rparr>)"
          using cur True by (simp add: cursor_weak_def)
        ultimately show ?thesis
          by (intro exI [of _ "E\<lparr>cy := cy E - 1, cx := int (length (chars (row E ! nat (cy E - 1))))\<rparr>"]) simp
      next
        case F2: False
        then have "move_key E key = Some E" using left False by (simp add: move_key_def)
        then show ?thesis using assms(2) by simp
      qed
    qed
  next
    case right
    show ?thesis
    proof (cases "cy E \<ge> numrows E")
      case True
      then have "move_key E key = Some E"
        using right by (simp add: move_key_def KEY_ARROW_LEFT_def KEY_ARROW_RIGHT_def)
      then show ?thesis using assms(2) by simp
    next
      case False
      let ?r = "row E ! nat (cy E)"
      have ra: "row_at E (cy E) = Some ?r" using row_at_Some [OF assms(1) cur(1)] False by simp
      let ?E' = "if cx E < int (length (chars ?r)) then E\<lparr>cx := cx E + 1\<rparr>
                 else if cx E = int (length (chars ?r)) then E\<lparr>cy := cy E + 1, cx := 0\<rparr> else E"
      have "move_key E key = Some ?E'"
        using right False ra by (simp add: move_key_def KEY_ARROW_LEFT_def KEY_ARROW_RIGHT_def)
      moreover have "cursor_weak ?E'" using cur False by (simp add: cursor_weak_def)
      moreover have "nocursor ?E' = nocursor E" by simp
      ultimately show ?thesis by blast
    qed
  next
    case up
    let ?E' = "if cy E \<noteq> 0 then E\<lparr>cy := cy E - 1\<rparr> else E"
    have "move_key E key = Some ?E'"
      using up by (simp add: move_key_def KEY_ARROW_LEFT_def KEY_ARROW_RIGHT_def KEY_ARROW_UP_def)
    moreover have "cursor_weak ?E'" using cur by (simp add: cursor_weak_def)
    moreover have "nocursor ?E' = nocursor E" by simp
    ultimately show ?thesis by blast
  next
    case down
    let ?E' = "if cy E < numrows E then E\<lparr>cy := cy E + 1\<rparr> else E"
    have "move_key E key = Some ?E'"
      using down by (simp add: move_key_def KEY_ARROW_LEFT_def KEY_ARROW_RIGHT_def KEY_ARROW_UP_def
                               KEY_ARROW_DOWN_def)
    moreover have "cursor_weak ?E'" using cur by (simp add: cursor_weak_def)
    moreover have "nocursor ?E' = nocursor E" by simp
    ultimately show ?thesis by blast
  next
    case other
    then have "move_key E key = Some E" by (simp add: move_key_def)
    then show ?thesis using assms(2) by simp
  qed
qed

lemma clamp_cx_ok:
  assumes "rows_ok E" and "cursor_weak E"
  shows "\<exists>E'. clamp_cx E = Some E' \<and> cursor_ok E' \<and> nocursor E' = nocursor E"
proof -
  have cur: "0 \<le> cy E" "cy E \<le> numrows E" "0 \<le> cx E"
    using assms(2) by (simp_all add: cursor_weak_def)
  define rowlen where "rowlen = (if cy E \<ge> numrows E then 0 else int (length (chars (row E ! nat (cy E)))))"
  have rl: "(if cy E \<ge> numrows E then Some 0
             else do { r \<leftarrow> row_at E (cy E); Some (int (length (chars r))) }) = Some rowlen"
    using row_at_Some [OF assms(1) cur(1)] by (simp add: rowlen_def)
  let ?E' = "if cx E > rowlen then E\<lparr>cx := rowlen\<rparr> else E"
  have "clamp_cx E = Some ?E'" by (simp add: clamp_cx_def rl)
  moreover have "cursor_ok ?E'" using cur by (auto simp: cursor_ok_def rowlen_def)
  moreover have "nocursor ?E' = nocursor E" by simp
  ultimately show ?thesis by blast
qed

lemma editorMoveCursor_ok:
  assumes "rows_ok E" and "cursor_weak E"
  shows "\<exists>E'. editorMoveCursor E key = Some E' \<and> cursor_ok E' \<and> nocursor E' = nocursor E"
proof -
  from move_key_ok [OF assms, of key]
  obtain E1 where E1: "move_key E key = Some E1" "cursor_weak E1" "nocursor E1 = nocursor E" by blast
  have "rows_ok E1" using nocursor_rows_ok [OF E1(3)] assms(1) by simp
  from clamp_cx_ok [OF this E1(2)]
  obtain E' where "clamp_cx E1 = Some E'" "cursor_ok E'" "nocursor E' = nocursor E1" by blast
  then show ?thesis using E1 by (simp add: editorMoveCursor_def)
qed

lemma move_times_ok:
  assumes "rows_ok E" and "cursor_weak E" and "0 < n \<or> cursor_ok E"
  shows "\<exists>E'. move_times n key E = Some E' \<and> cursor_ok E' \<and> nocursor E' = nocursor E"
  using assms
proof (induction n arbitrary: E)
  case 0
  then show ?case by simp
next
  case (Suc n)
  from editorMoveCursor_ok [OF Suc.prems(1,2), of key]
  obtain E1 where E1: "editorMoveCursor E key = Some E1" "cursor_ok E1" "nocursor E1 = nocursor E"
    by blast
  have "rows_ok E1" using nocursor_rows_ok [OF E1(3)] Suc.prems(1) by simp
  from Suc.IH [OF this cursor_ok_weak [OF E1(2)]] E1(2)
  obtain E' where "move_times n key E1 = Some E'" "cursor_ok E'" "nocursor E' = nocursor E1"
    by blast
  then show ?case using E1 by simp
qed

lemma scroll_rowoff_bounds:
  assumes "0 \<le> cy E" and "0 \<le> rowoff E" and "1 \<le> screenrows E"
  shows "0 \<le> scroll_rowoff E" "scroll_rowoff E \<le> cy E"
  using assms by (auto simp: scroll_rowoff_def Let_def)

lemma refreshed_ok:
  assumes "rows_ok E" and "cursor_ok E" and "screen_ok E"
  shows "editorRefreshScreen E = Some (refreshed E)" "rows_ok (refreshed E)"
    "cursor_ok (refreshed E)" "screen_ok (refreshed E)" "rowoff (refreshed E) \<le> cy (refreshed E)"
proof -
  have cur: "0 \<le> cy E" "cy E \<le> numrows E" using assms(2) by (simp_all add: cursor_ok_def)
  have "scroll_defined E"
    using row_at_Some [OF assms(1) cur(1)] by (simp add: scroll_defined_def)
  then show "editorRefreshScreen E = Some (refreshed E)" by (rule editorRefreshScreen_eq)
  show "rows_ok (refreshed E)" using assms(1) by (simp add: refreshed_def rows_ok_def)
  show "cursor_ok (refreshed E)"
    using assms(2) by (auto simp: refreshed_def cursor_ok_def split: if_splits)
  show "screen_ok (refreshed E)"
    using scroll_rowoff_bounds(1) [of E] assms(3) cur by (simp add: refreshed_def screen_ok_def)
  show "rowoff (refreshed E) \<le> cy (refreshed E)"
    using scroll_rowoff_bounds(2) [of E] assms(3) cur by (simp add: refreshed_def screen_ok_def)
qed

text \<open>
  The statics of the search between two keys of a search prompt (\<open>search_ok\<close>) and outside
  of one (\<open>search_idle\<close>).
\<close>

definition search_ok :: "Editor \<Rightarrow> bool" where
  "search_ok E = (- 1 \<le> last_match E \<and> last_match E < numrows E \<and>
                  (direction E = 1 \<or> direction E = - 1) \<and>
                  (case saved_hl E of
                     None \<Rightarrow> True
                   | Some sv \<Rightarrow> 0 \<le> saved_hl_line E \<and> saved_hl_line E < numrows E \<and>
                       length sv = length (render (row E ! nat (saved_hl_line E)))))"

definition search_idle :: "Editor \<Rightarrow> bool" where
  "search_idle E = (saved_hl E = None \<and> last_match E = - 1 \<and> direction E = 1)"

text \<open>What a prompt leaves as it is: the text, the number of rows and the editor's settings.\<close>

definition prompt_rel :: "Editor \<Rightarrow> Editor \<Rightarrow> bool" where
  "prompt_rel E E' = (numrows E' = numrows E \<and> map chars (row E') = map chars (row E) \<and>
                      screenrows E' = screenrows E \<and> dirty E' = dirty E \<and>
                      filename E' = filename E \<and> esyntax E' = esyntax E)"

lemma prompt_rel_refl: "prompt_rel E E"
  by (simp add: prompt_rel_def)

lemma prompt_rel_trans: "prompt_rel E E1 \<Longrightarrow> prompt_rel E1 E2 \<Longrightarrow> prompt_rel E E2"
  by (simp add: prompt_rel_def)

lemma search_idle_ok: "rows_ok E \<Longrightarrow> search_idle E \<Longrightarrow> search_ok E"
  by (simp add: search_idle_def search_ok_def rows_ok_def)

lemma strstr_bound: "strstr h q = Some m \<Longrightarrow> m + length q \<le> length h"
proof (induction h arbitrary: m)
  case Nil
  then show ?case by (simp split: if_splits)
next
  case (Cons c h)
  show ?case
  proof (cases "take (length q) (c # h) = q")
    case True
    then have "length (take (length q) (c # h)) = length q" by simp
    then have "length q \<le> length (c # h)" by (simp add: min_def split: if_splits)
    then show ?thesis using Cons.prems True by simp
  next
    case False
    with Cons.prems obtain m' where "strstr h q = Some m'" "m = Suc m'" by auto
    then show ?thesis using Cons.IH by simp
  qed
qed

lemma cstr_length: "length (cstr s) \<le> length s"
  by (simp add: cstr_def length_takeWhile_le)

lemma rowRxToCx_loop_le: "j \<le> length cs \<Longrightarrow> rowRxToCx_loop cs t j cur \<le> length cs"
proof (induction cs t j cur rule: rowRxToCx_loop.induct)
  case (1 cs t j cur)
  show ?case
  proof (cases "j < length cs")
    case False
    then have "rowRxToCx_loop cs t j cur = j" by (subst rowRxToCx_loop.simps) simp
    then show ?thesis using "1.prems" by simp
  next
    case True
    show ?thesis
    proof (cases "int (rx_advance (cs ! j) cur) > t")
      case T2: True
      then have "rowRxToCx_loop cs t j cur = j"
        using True by (subst rowRxToCx_loop.simps) (simp add: Let_def)
      then show ?thesis using True by simp
    next
      case False
      then have "rowRxToCx_loop cs t j cur = rowRxToCx_loop cs t (j + 1) (rx_advance (cs ! j) cur)"
        using True by (subst rowRxToCx_loop.simps) (simp add: Let_def)
      then show ?thesis using "1.IH" [OF True refl False] True by simp
    qed
  qed
qed

lemma rowRxToCx_bounds: "0 \<le> rowRxToCx r t \<and> rowRxToCx r t \<le> int (length (chars r))"
  using rowRxToCx_loop_le [of 0 "chars r" t 0] by (simp add: rowRxToCx_def)

lemma rowlist_ok_hl:
  assumes "rowlist_ok rs" and "p < length rs" and "length h = length (render (rs ! p))"
  shows "rowlist_ok (rs[p := (rs ! p)\<lparr>hl := h\<rparr>])"
  unfolding rowlist_ok_def
proof (intro allI impI)
  fix i assume "i < length (rs[p := (rs ! p)\<lparr>hl := h\<rparr>])"
  then have i: "i < length rs" by simp
  show "row_ok i (rs[p := (rs ! p)\<lparr>hl := h\<rparr>] ! i)"
    using assms i by (cases "i = p") (auto simp: rowlist_ok_def row_ok_def)
qed

lemma map_chars_hl: "p < length rs \<Longrightarrow> map chars (rs[p := (rs ! p)\<lparr>hl := h\<rparr>]) = map chars rs"
  by (simp add: list_eq_iff_nth_eq nth_list_update)

lemma render_hl_upd:
  "p < length rs \<Longrightarrow> render (rs[p := (rs ! p)\<lparr>hl := h\<rparr>] ! j) = render (rs ! j)"
  by (cases "j = p") simp_all

definition prompt_inv :: "Editor \<Rightarrow> bool" where
  "prompt_inv E = (rows_ok E \<and> cursor_ok E \<and> screen_ok E \<and> search_ok E)"

text \<open>The fields that the search callback leaves alone.\<close>

definition nosearch :: "Editor \<Rightarrow> Editor" where
  "nosearch E = E\<lparr>row := [], saved_hl := None, saved_hl_line := 0, last_match := 0,
                   direction := 0, cx := 0, cy := 0, rowoff := 0\<rparr>"

lemma nosearch_fields:
  assumes "nosearch E' = nosearch E"
  shows "numrows E' = numrows E" "screenrows E' = screenrows E" "dirty E' = dirty E"
    "filename E' = filename E" "esyntax E' = esyntax E" "quit_times E' = quit_times E"
  using arg_cong [OF assms, of numrows] arg_cong [OF assms, of screenrows]
    arg_cong [OF assms, of dirty] arg_cong [OF assms, of filename]
    arg_cong [OF assms, of esyntax] arg_cong [OF assms, of quit_times]
  by (simp_all add: nosearch_def)

lemma restore_hl_ok:
  assumes "rows_ok E" and "search_ok E"
  shows "\<exists>E'. restore_hl E = Some E' \<and> rows_ok E' \<and> saved_hl E' = None \<and>
              nosearch E' = nosearch E \<and> map chars (row E') = map chars (row E) \<and>
              cx E' = cx E \<and> cy E' = cy E \<and> rowoff E' = rowoff E \<and>
              last_match E' = last_match E \<and> direction E' = direction E"
proof (cases "saved_hl E")
  case None
  then have "restore_hl E = Some E" by (simp add: restore_hl_def)
  then show ?thesis using assms(1) None by simp
next
  case (Some sv)
  define l where "l = nat (saved_hl_line E)"
  let ?r = "row E ! l"
  have n: "numrows E = int (length (row E))" using assms(1) by (rule rows_ok_numrows)
  have sl: "0 \<le> saved_hl_line E" "saved_hl_line E < numrows E" "length sv = length (render ?r)"
    using assms(2) Some by (simp_all add: search_ok_def l_def)
  have l: "l < length (row E)" using sl n by (simp add: l_def)
  have hl: "length (hl ?r) = length (render ?r)"
    using rows_okD [OF assms(1) l] by (simp add: row_ok_def)
  have ra: "row_at E (saved_hl_line E) = Some ?r"
    using row_at_Some [OF assms(1) sl(1,2)] by (simp add: l_def)
  define E' where "E' = (row_set E l (?r\<lparr>hl := sv\<rparr>))\<lparr>saved_hl := None, saved_hl_line := - 1\<rparr>"
  have "restore_hl E = Some E'"
    using Some ra sl(3) hl by (simp add: restore_hl_def E'_def l_def)
  moreover have "rows_ok E'"
    using rowlist_ok_hl [of "row E" l sv] assms(1) l sl(3) n
    by (simp add: E'_def row_set_def rows_ok_def)
  moreover have "map chars (row E') = map chars (row E)"
    using map_chars_hl [OF l] by (simp add: E'_def row_set_def)
  moreover have "nosearch E' = nosearch E" by (simp add: E'_def row_set_def nosearch_def)
  ultimately show ?thesis by (simp add: E'_def row_set_def)
qed

lemma found_at_ok:
  assumes "rows_ok E" and "0 \<le> c" and "c < numrows E" and "line_matches E q c"
    and "direction E = 1 \<or> direction E = - 1"
  shows "rows_ok (found_at E q c)" "cursor_ok (found_at E q c)" "search_ok (found_at E q c)"
    "rowoff (found_at E q c) = numrows E" "nosearch (found_at E q c) = nosearch E"
    "map chars (row (found_at E q c)) = map chars (row E)"
proof -
  define p where "p = nat c"
  let ?r = "row E ! p"
  have n: "numrows E = int (length (row E))" using assms(1) by (rule rows_ok_numrows)
  have p: "p < length (row E)" using assms(2,3) n by (simp add: p_def)
  obtain m where m: "strstr (cstr (render ?r)) q = Some m"
    using assms(4) by (auto simp: line_matches_def p_def)
  have hl: "length (hl ?r) = length (render ?r)"
    using rows_okD [OF assms(1) p] by (simp add: row_ok_def)
  have "m + length q \<le> length (hl ?r)"
    using strstr_bound [OF m] cstr_length [of "render ?r"] hl by simp
  then have len: "length (memset_hl (hl ?r) m HL_MATCH (length q)) = length (render ?r)"
    using hl by (simp add: length_memset_hl)
  define rs where "rs = (row E)[p := ?r\<lparr>hl := memset_hl (hl ?r) m HL_MATCH (length q)\<rparr>]"
  have F: "found_at E q c = E\<lparr>row := rs, last_match := c, cy := c, cx := rowRxToCx ?r (int m),
              rowoff := numrows E, saved_hl_line := c,
              saved_hl := Some (take (length (render ?r)) (hl ?r))\<rparr>"
    using m by (simp add: found_at_def Let_def row_set_def rs_def p_def)
  have rl: "rowlist_ok rs"
    unfolding rs_def using assms(1) p len by (intro rowlist_ok_hl) (simp_all add: rows_ok_def)
  show "rows_ok (found_at E q c)" using rl n by (simp add: F rows_ok_def rs_def)
  have ch: "chars (rs ! p) = chars ?r" using p by (simp add: rs_def)
  show "cursor_ok (found_at E q c)"
    using assms(2,3) rowRxToCx_bounds [of ?r "int m"] ch
    by (simp add: F cursor_ok_def p_def)
  have "render (rs ! p) = render ?r" using p by (simp add: rs_def)
  then show "search_ok (found_at E q c)"
    using assms(2,3,5) hl by (simp add: F search_ok_def p_def)
  show "rowoff (found_at E q c) = numrows E" by (simp add: F)
  show "nosearch (found_at E q c) = nosearch E" by (simp add: F nosearch_def)
  show "map chars (row (found_at E q c)) = map chars (row E)"
    using map_chars_hl [OF p] by (simp add: F rs_def)
qed

lemma visit_range: "0 < numrows E \<Longrightarrow> 0 \<le> visit E cur k \<and> visit E cur k < numrows E"
  by (simp add: visit_def)

lemma find_loop_ok:
  assumes "rows_ok E" and "cursor_ok E" and "screen_ok E" and "search_ok E"
    and "saved_hl E = None" and "last_match E = - 1 \<longrightarrow> direction E = 1"
  shows "\<exists>E'. find_loop q (nat (numrows E)) (last_match E) E = Some E' \<and> rows_ok E' \<and>
              cursor_ok E' \<and> screen_ok E' \<and> search_ok E' \<and> nosearch E' = nosearch E \<and>
              map chars (row E') = map chars (row E)"
proof -
  have n: "numrows E = int (length (row E))" using assms(1) by (rule rows_ok_numrows)
  have s: "- 1 \<le> last_match E" "last_match E < numrows E" "direction E = 1 \<or> direction E = - 1"
    using assms(4) by (simp_all add: search_ok_def)
  let ?P = "\<lambda>k. line_matches E q (visit E (last_match E) k)"
  have scan: "find_loop q (nat (numrows E)) (last_match E) E =
      (case find ?P [0..<length (row E)] of None \<Rightarrow> Some E
       | Some k \<Rightarrow> Some (found_at E q (visit E (last_match E) k)))"
    using find_loop_scan [OF n s(3) s(1,2) assms(6), of "length (row E)" q] n by simp
  show ?thesis
  proof (cases "find ?P [0..<length (row E)]")
    case None
    then show ?thesis using scan assms by simp
  next
    case (Some k)
    then have k: "?P k" "k < length (row E)" by (auto simp: find_Some_iff)
    have "0 < length (row E)" using k(2) by arith
    then have "0 < numrows E" using n by arith
    from visit_range [OF this, of "last_match E" k]
    have v: "0 \<le> visit E (last_match E) k" "visit E (last_match E) k < numrows E" by simp_all
    note f = found_at_ok [OF assms(1) v k(1) s(3)]
    have "screen_ok (found_at E q (visit E (last_match E) k))"
      using f(4) nosearch_fields(2) [OF f(5)] assms(3) n by (simp add: screen_ok_def)
    then show ?thesis using scan Some f by simp
  qed
qed

lemma editorFindCallback_ok:
  assumes "prompt_inv E"
  shows "\<exists>E'. editorFindCallback E q key = Some E' \<and> prompt_inv E' \<and> prompt_rel E E' \<and>
              quit_times E' = quit_times E \<and>
              (key = KEY_ENTER \<or> key = KEY_ESC \<longrightarrow> search_idle E')"
proof -
  have a: "rows_ok E" "cursor_ok E" "screen_ok E" "search_ok E"
    using assms by (simp_all add: prompt_inv_def)
  from restore_hl_ok [OF a(1,4)]
  obtain E1 where E1: "restore_hl E = Some E1" "rows_ok E1" "saved_hl E1 = None"
      "nosearch E1 = nosearch E" "map chars (row E1) = map chars (row E)"
      "cx E1 = cx E" "cy E1 = cy E" "rowoff E1 = rowoff E"
      "last_match E1 = last_match E" "direction E1 = direction E"
    by blast
  note nf = nosearch_fields [OF E1(4)]
  have n1: "numrows E1 = int (length (row E1))" using E1(2) by (rule rows_ok_numrows)
  have len: "length (row E1) = length (row E)" using arg_cong [OF E1(5), of length] by simp
  have chars1: "chars (row E1 ! nat (cy E)) = chars (row E ! nat (cy E))" if "cy E < numrows E"
  proof -
    have "0 \<le> cy E" using a(2) by (simp add: cursor_ok_def)
    then have "nat (cy E) < length (row E)"
      using that rows_ok_numrows [OF a(1)] by arith
    then show ?thesis using arg_cong [OF E1(5), of "\<lambda>l. l ! nat (cy E)"] len by simp
  qed
  have c1: "cursor_ok E1"
    using a(2) E1(6,7) nf(1) chars1 cursor_ok_cong [of E1 E] by simp
  have s1: "screen_ok E1" using a(3) E1(8) nf(2) by (simp add: screen_ok_def)
  have so1: "search_ok E1"
    using a(4) E1(3,9,10) nf(1) by (simp add: search_ok_def)
  have rel1: "prompt_rel E E1" using nf E1(5) by (simp add: prompt_rel_def)
  show ?thesis
  proof (cases "key = KEY_ENTER \<or> key = KEY_ESC")
    case True
    define E' where "E' = E1\<lparr>last_match := - 1, direction := 1\<rparr>"
    have "editorFindCallback E q key = Some E'"
      using True E1(1) by (simp add: editorFindCallback_def E'_def)
    moreover have "search_idle E'" using E1(3) by (simp add: E'_def search_idle_def)
    moreover have "rows_ok E'" using E1(2) by (simp add: E'_def rows_ok_def)
    moreover have "cursor_ok E'" using c1 cursor_ok_cong [of E' E1] by (simp add: E'_def)
    moreover have "screen_ok E'" using s1 by (simp add: E'_def screen_ok_def)
    moreover have "prompt_rel E E'" using rel1 by (simp add: E'_def prompt_rel_def)
    moreover have "quit_times E' = quit_times E" using nf(6) by (simp add: E'_def)
    ultimately show ?thesis
      using search_idle_ok [of E'] by (auto simp: prompt_inv_def)
  next
    case False
    define E2 where "E2 = (if key = KEY_ARROW_RIGHT \<or> key = KEY_ARROW_DOWN then E1\<lparr>direction := 1\<rparr>
                           else if key = KEY_ARROW_LEFT \<or> key = KEY_ARROW_UP then E1\<lparr>direction := - 1\<rparr>
                           else E1\<lparr>last_match := - 1, direction := 1\<rparr>)"
    define E3 where "E3 = (if last_match E2 = - 1 then E2\<lparr>direction := 1\<rparr> else E2)"
    have cb: "editorFindCallback E q key = find_loop q (nat (numrows E3)) (last_match E3) E3"
      using False E1(1) by (simp add: editorFindCallback_def Let_def E2_def E3_def)
    have e3: "row E3 = row E1" "numrows E3 = numrows E1" "cx E3 = cx E1" "cy E3 = cy E1"
        "rowoff E3 = rowoff E1" "screenrows E3 = screenrows E1" "saved_hl E3 = None"
        "nosearch E3 = nosearch E1"
      using E1(3) by (simp_all add: E3_def E2_def nosearch_def)
    have r3: "rows_ok E3" using E1(2) e3 by (simp add: rows_ok_def)
    have c3: "cursor_ok E3" using c1 e3 cursor_ok_cong [of E3 E1] by simp
    have s3: "screen_ok E3" using s1 e3 by (simp add: screen_ok_def)
    have so3: "search_ok E3"
      using so1 e3(2,7) by (auto simp: search_ok_def E3_def E2_def split: if_splits)
    have d3: "last_match E3 = - 1 \<longrightarrow> direction E3 = 1" by (simp add: E3_def)
    from find_loop_ok [OF r3 c3 s3 so3 e3(7) d3, of q]
    obtain E' where E': "find_loop q (nat (numrows E3)) (last_match E3) E3 = Some E'"
        "rows_ok E'" "cursor_ok E'" "screen_ok E'" "search_ok E'" "nosearch E' = nosearch E3"
        "map chars (row E') = map chars (row E3)"
      by blast
    have "nosearch E' = nosearch E" using E'(6) e3(8) E1(4) by simp
    note nf' = nosearch_fields [OF this]
    have "prompt_rel E E'" using nf' E'(7) e3(1) E1(5) by (simp add: prompt_rel_def)
    then show ?thesis using cb E' False nf'(6) by (auto simp: prompt_inv_def)
  qed
qed

lemma prompt_inv_refreshed:
  assumes "prompt_inv E"
  shows "editorRefreshScreen E = Some (refreshed E)" "prompt_inv (refreshed E)"
    "prompt_rel E (refreshed E)" "quit_times (refreshed E) = quit_times E"
    "search_idle (refreshed E) = search_idle E"
proof -
  have a: "rows_ok E" "cursor_ok E" "screen_ok E" "search_ok E"
    using assms by (simp_all add: prompt_inv_def)
  note r = refreshed_ok [OF a(1,2,3)]
  show "editorRefreshScreen E = Some (refreshed E)" by (rule r(1))
  have "search_ok (refreshed E)"
    using a(4) by (cases "saved_hl E") (simp_all add: refreshed_def search_ok_def)
  then show "prompt_inv (refreshed E)" using r by (simp add: prompt_inv_def)
  show "prompt_rel E (refreshed E)" by (simp add: refreshed_def prompt_rel_def)
  show "quit_times (refreshed E) = quit_times E" by (simp add: refreshed_def)
  show "search_idle (refreshed E) = search_idle E" by (simp add: refreshed_def search_idle_def)
qed

lemma prompt_callback_ok:
  assumes "prompt_inv E" and "search_idle E \<or> cb"
  shows "\<exists>E'. prompt_callback cb E b c = Some E' \<and> prompt_inv E' \<and> prompt_rel E E' \<and>
              quit_times E' = quit_times E \<and> (search_idle E' \<or> cb) \<and>
              (c = KEY_ENTER \<or> c = KEY_ESC \<longrightarrow> search_idle E')"
proof (cases cb)
  case True
  from editorFindCallback_ok [OF assms(1), of b c] True show ?thesis
    by (auto simp: prompt_callback_def)
next
  case False
  then show ?thesis using assms by (auto simp: prompt_callback_def prompt_rel_refl)
qed

definition prompt_post :: "Editor \<Rightarrow> prompt_out \<Rightarrow> bool" where
  "prompt_post E out =
     (case out of
        Pending E' \<Rightarrow> prompt_inv E' \<and> prompt_rel E E'
      | Answer a E' ks' \<Rightarrow> prompt_inv E' \<and> prompt_rel E E' \<and> search_idle E' \<and>
                            quit_times E' = quit_times E)"

lemma prompt_post_trans:
  "prompt_rel E E1 \<Longrightarrow> quit_times E1 = quit_times E \<Longrightarrow> prompt_post E1 out \<Longrightarrow> prompt_post E out"
  by (auto simp: prompt_post_def split: prompt_out.splits intro: prompt_rel_trans)

lemma editorPrompt_ok:
  assumes "prompt_inv E" and "search_idle E \<or> cb"
  shows "\<exists>out. editorPrompt cb E buf ks = Some out \<and> prompt_post E out"
  using assms
proof (induction ks arbitrary: E buf)
  case Nil
  note r = prompt_inv_refreshed [OF Nil(1)]
  show ?case using r by (simp add: prompt_post_def)
next
  case (Cons c ks)
  note r = prompt_inv_refreshed [OF Cons.prems(1)]
  have idle1: "search_idle (refreshed E) \<or> cb" using Cons.prems(2) r(5) by simp
  have cbk: "\<exists>E2. prompt_callback cb (refreshed E) b c = Some E2 \<and> prompt_inv E2 \<and>
                  prompt_rel E E2 \<and> quit_times E2 = quit_times E \<and> (search_idle E2 \<or> cb) \<and>
                  (c = KEY_ENTER \<or> c = KEY_ESC \<longrightarrow> search_idle E2)" for b
    using prompt_callback_ok [OF r(2) idle1, of b c] r(3,4)
    by (auto intro: prompt_rel_trans)
  have rec: "\<exists>out. (do { E2 \<leftarrow> prompt_callback cb (refreshed E) b c; editorPrompt cb E2 b ks })
                     = Some out \<and> prompt_post E out" for b
  proof -
    from cbk [of b] obtain E2 where E2: "prompt_callback cb (refreshed E) b c = Some E2"
        "prompt_inv E2" "prompt_rel E E2" "quit_times E2 = quit_times E" "search_idle E2 \<or> cb"
      by blast
    from Cons.IH [OF E2(2,5), of b] obtain out where
      "editorPrompt cb E2 b ks = Some out" "prompt_post E2 out" by blast
    then show ?thesis using E2 prompt_post_trans [of E E2 out] by simp
  qed
  have fin: "\<exists>out. (do { E2 \<leftarrow> prompt_callback cb (refreshed E) b c; Some (Answer a E2 ks) })
                     = Some out \<and> prompt_post E out"
    if "c = KEY_ENTER \<or> c = KEY_ESC" for a b
  proof -
    from cbk [of b] that obtain E2 where E2: "prompt_callback cb (refreshed E) b c = Some E2"
        "prompt_inv E2" "prompt_rel E E2" "quit_times E2 = quit_times E" "search_idle E2"
      by blast
    then show ?thesis by (simp add: prompt_post_def)
  qed
  consider (del) "c = KEY_DEL \<or> c = CTRL_KEY (CHR ''h'') \<or> c = KEY_BACKSPACE"
    | (esc) "c = KEY_ESC"
    | (enter) "c = KEY_ENTER" "buf \<noteq> []"
    | (enter0) "c = KEY_ENTER" "buf = []"
    | (char) "\<not> (c = KEY_DEL \<or> c = CTRL_KEY (CHR ''h'') \<or> c = KEY_BACKSPACE)" "c \<noteq> KEY_ESC"
        "c \<noteq> KEY_ENTER" "\<not> iscntrl c \<and> c < 128"
    | (other) "\<not> (c = KEY_DEL \<or> c = CTRL_KEY (CHR ''h'') \<or> c = KEY_BACKSPACE)" "c \<noteq> KEY_ESC"
        "c \<noteq> KEY_ENTER" "\<not> (\<not> iscntrl c \<and> c < 128)"
    by blast
  then show ?case
  proof cases
    case del
    then show ?thesis using rec [of "butlast buf"] r(1) by simp
  next
    case esc
    then have "\<not> (c = KEY_DEL \<or> c = CTRL_KEY (CHR ''h'') \<or> c = KEY_BACKSPACE)"
      by (auto simp: KEY_ESC_def KEY_DEL_def CTRL_KEY_def KEY_BACKSPACE_def)
    then show ?thesis using esc fin [of buf None] r(1) by simp
  next
    case enter
    then have "\<not> (c = KEY_DEL \<or> c = CTRL_KEY (CHR ''h'') \<or> c = KEY_BACKSPACE)" "c \<noteq> KEY_ESC"
      by (auto simp: KEY_ENTER_def KEY_ESC_def KEY_DEL_def CTRL_KEY_def KEY_BACKSPACE_def)
    then show ?thesis using enter fin [of buf "Some buf"] r(1) by simp
  next
    case enter0
    then have "\<not> (c = KEY_DEL \<or> c = CTRL_KEY (CHR ''h'') \<or> c = KEY_BACKSPACE)" "c \<noteq> KEY_ESC"
      by (auto simp: KEY_ENTER_def KEY_ESC_def KEY_DEL_def CTRL_KEY_def KEY_BACKSPACE_def)
    then show ?thesis using enter0 rec [of buf] r(1) by simp
  next
    case char
    then show ?thesis using rec [of "buf @ [char_of c]"] r(1) by simp
  next
    case other
    then have "editorPrompt cb E buf (c # ks) =
        do { E2 \<leftarrow> prompt_callback cb (refreshed E) buf c; editorPrompt cb E2 buf ks }"
      using r(1) by auto
    then show ?thesis using rec [of buf] by simp
  qed
qed

definition loop_inv :: "Editor \<Rightarrow> bool" where
  "loop_inv E = (rows_ok E \<and> cursor_ok E \<and> screen_ok E \<and> search_idle E)"

lemma loop_inv_prompt: "loop_inv E \<Longrightarrow> prompt_inv E"
  by (simp add: loop_inv_def prompt_inv_def search_idle_ok)

lemma loop_inv_rest:
  assumes "rest E' = rest E" and "rows_ok E'" and "cursor_ok E'" and "loop_inv E"
  shows "loop_inv E'"
  using assms rest_fields [OF assms(1)]
  by (simp add: loop_inv_def screen_ok_def search_idle_def)

lemma loop_inv_quit [simp]: "loop_inv (E\<lparr>quit_times := q\<rparr>) = loop_inv E"
  by (simp add: loop_inv_def rows_ok_def cursor_ok_def screen_ok_def search_idle_def)

lemma rowlist_ok_rel:
  assumes "rowlist_ok rs" and "length rs' = length rs" and "\<forall>i < length rs'. row_rel (rs ! i) (rs' ! i)"
  shows "rowlist_ok rs'" "map chars rs' = map chars rs"
proof -
  show "rowlist_ok rs'"
    using assms by (auto simp: rowlist_ok_def row_ok_def row_rel_def)
  show "map chars rs' = map chars rs"
    using assms(2,3) by (auto simp: list_eq_iff_nth_eq row_rel_def)
qed

lemma rehighlight_loop_ok:
  assumes "rows_ok E" and "r + n \<le> length (row E)"
  shows "\<exists>rs. rehighlight_loop n r E = Some (E\<lparr>row := rs\<rparr>) \<and> length rs = length (row E) \<and>
              rowlist_ok rs \<and> map chars rs = map chars (row E)"
  using assms
proof (induction n arbitrary: r E)
  case 0
  have "rehighlight_loop 0 r E = Some (E\<lparr>row := row E\<rparr>)" by simp
  then show ?case using "0.prems"(1) unfolding rows_ok_def by blast
next
  case (Suc n)
  have n: "numrows E = int (length (row E))" using Suc.prems(1) by (rule rows_ok_numrows)
  have idx: "\<forall>i < length (row E). idx (row E ! i) = int i"
    using rows_okD [OF Suc.prems(1)] by (simp add: row_ok_def)
  from editorUpdateSyntax_rows [OF _ _ idx, of r] n Suc.prems(2)
  obtain rs1 where rs1: "editorUpdateSyntax E r = Some (E\<lparr>row := rs1\<rparr>)"
      "length rs1 = length (row E)" "\<forall>i < length rs1. row_rel (row E ! i) (rs1 ! i)"
    by auto
  have rl: "rowlist_ok (row E)" using Suc.prems(1) by (simp add: rows_ok_def)
  note k = rowlist_ok_rel [OF rl rs1(2,3)]
  have ok1: "rows_ok (E\<lparr>row := rs1\<rparr>)" using k(1) rs1(2) n by (simp add: rows_ok_def)
  from Suc.IH [OF ok1, of "Suc r"] Suc.prems(2) rs1(2)
  obtain rs where "rehighlight_loop n (Suc r) (E\<lparr>row := rs1\<rparr>) = Some (E\<lparr>row := rs\<rparr>)"
      "length rs = length rs1" "rowlist_ok rs" "map chars rs = map chars rs1"
    by auto
  then show ?case using rs1(1,2) k(2) by auto
qed

lemma editorSelectSyntax_ok:
  assumes "rows_ok E"
  shows "\<exists>rs s. editorSelectSyntax E = Some (E\<lparr>esyntax := s, row := rs\<rparr>) \<and>
                length rs = length (row E) \<and> rowlist_ok rs \<and> map chars rs = map chars (row E)"
proof -
  have n: "numrows E = int (length (row E))" using assms by (rule rows_ok_numrows)
  have rl: "rowlist_ok (row E)" using assms by (simp add: rows_ok_def)
  have same: "E\<lparr>esyntax := None\<rparr> = E\<lparr>esyntax := None, row := row E\<rparr>" by simp
  show ?thesis
  proof (cases "filename E")
    case None
    then have "editorSelectSyntax E = Some (E\<lparr>esyntax := None, row := row E\<rparr>)"
      by (simp add: editorSelectSyntax_def Let_def)
    then show ?thesis using rl by blast
  next
    case (Some f)
    show ?thesis
    proof (cases "select_loop HLDB f")
      case None
      then have "editorSelectSyntax E = Some (E\<lparr>esyntax := None, row := row E\<rparr>)"
        using Some by (simp add: editorSelectSyntax_def Let_def)
      then show ?thesis using rl by blast
    next
      case (Some s)
      have ok: "rows_ok (E\<lparr>esyntax := Some s\<rparr>)" using assms by (simp add: rows_ok_def)
      from rehighlight_loop_ok [OF ok, of 0 "length (row E)"]
      obtain rs where rs: "rehighlight_loop (length (row E)) 0 (E\<lparr>esyntax := Some s\<rparr>)
            = Some (E\<lparr>esyntax := Some s, row := rs\<rparr>)"
          "length rs = length (row E)" "rowlist_ok rs" "map chars rs = map chars (row E)"
        by auto
      have "editorSelectSyntax E = Some (E\<lparr>esyntax := Some s, row := rs\<rparr>)"
        using \<open>filename E = Some f\<close> Some rs(1) n by (simp add: editorSelectSyntax_def Let_def)
      then show ?thesis using rs by blast
    qed
  qed
qed

lemma open_loop_ok:
  assumes "rows_ok E"
  shows "\<exists>rs d. open_loop ls E = Some (E\<lparr>row := rs, numrows := int (length rs), dirty := d\<rparr>) \<and>
                rowlist_ok rs \<and> map chars rs = map chars (row E) @ map chomp ls"
  using assms
proof (induction ls arbitrary: E)
  case Nil
  have "E = E\<lparr>row := row E, numrows := int (length (row E)), dirty := dirty E\<rparr>"
    using rows_ok_numrows [OF Nil] by simp
  then have "open_loop [] E = Some (E\<lparr>row := row E, numrows := int (length (row E)), dirty := dirty E\<rparr>)"
    by simp
  moreover have "rowlist_ok (row E)" using Nil by (simp add: rows_ok_def)
  ultimately show ?case by (intro exI [of _ "row E"] exI [of _ "dirty E"]) simp
next
  case (Cons l ls)
  have n: "numrows E = int (length (row E))" using Cons.prems by (rule rows_ok_numrows)
  from editorInsertRow_ok [OF Cons.prems, of "numrows E" "chomp l"] n
  obtain rs1 where rs1: "editorInsertRow E (numrows E) (chomp l)
        = Some (E\<lparr>row := rs1, numrows := numrows E + 1, dirty := dirty E + 1\<rparr>)"
      "length rs1 = Suc (length (row E))" "rowlist_ok rs1"
      "map chars rs1 = map chars (row E) @ [chomp l]"
    by auto
  define E1 where "E1 = E\<lparr>row := rs1, numrows := numrows E + 1, dirty := dirty E + 1\<rparr>"
  have ok1: "rows_ok E1" using rs1(2,3) n by (simp add: E1_def rows_ok_def)
  from Cons.IH [OF ok1]
  obtain rs d where rs: "open_loop ls E1 = Some (E1\<lparr>row := rs, numrows := int (length rs), dirty := d\<rparr>)"
      "rowlist_ok rs" "map chars rs = map chars (row E1) @ map chomp ls"
    by blast
  have "open_loop (l # ls) E = Some (E\<lparr>row := rs, numrows := int (length rs), dirty := d\<rparr>)"
    using rs1(1) rs(1) by (simp add: E1_def)
  moreover have "map chars rs = map chars (row E) @ map chomp (l # ls)"
    using rs(3) rs1(4) by (simp add: E1_def)
  ultimately show ?case using rs(2) by blast
qed

lemma editorOpen_ok:
  assumes "rows_ok E"
  shows "\<exists>rs s. editorOpen E name content
                  = Some (E\<lparr>filename := Some name, esyntax := s, row := rs,
                           numrows := int (length rs), dirty := 0\<rparr>) \<and>
                rowlist_ok rs \<and>
                map chars rs = map chars (row E) @ map chomp (getlines [] content)"
proof -
  have ok0: "rows_ok (E\<lparr>filename := Some name\<rparr>)" using assms by (simp add: rows_ok_def)
  from editorSelectSyntax_ok [OF ok0]
  obtain rs0 s where s: "editorSelectSyntax (E\<lparr>filename := Some name\<rparr>)
        = Some (E\<lparr>filename := Some name, esyntax := s, row := rs0\<rparr>)"
      "length rs0 = length (row E)" "rowlist_ok rs0" "map chars rs0 = map chars (row E)"
    by auto
  define E1 where "E1 = E\<lparr>filename := Some name, esyntax := s, row := rs0\<rparr>"
  have ok1: "rows_ok E1"
    using s(2,3) rows_ok_numrows [OF assms] by (simp add: E1_def rows_ok_def)
  from open_loop_ok [OF ok1, of "getlines [] content"]
  obtain rs d where rs: "open_loop (getlines [] content) E1
        = Some (E1\<lparr>row := rs, numrows := int (length rs), dirty := d\<rparr>)"
      "rowlist_ok rs" "map chars rs = map chars (row E1) @ map chomp (getlines [] content)"
    by blast
  have "editorOpen E name content
          = Some (E\<lparr>filename := Some name, esyntax := s, row := rs,
                   numrows := int (length rs), dirty := 0\<rparr>)"
    using s(1) rs(1) by (simp add: editorOpen_def E1_def)
  moreover have "map chars rs = map chars (row E) @ map chomp (getlines [] content)"
    using rs(3) s(4) by (simp add: E1_def)
  ultimately show ?thesis using rs(2) by blast
qed

lemma loop_inv_init: "3 \<le> rws \<Longrightarrow> loop_inv (initEditor rws cls)"
  by (simp add: loop_inv_def initEditor_def rows_ok_def rowlist_ok_def cursor_ok_def
                screen_ok_def search_idle_def)

lemma startup_ok:
  assumes "3 \<le> rws"
  shows "\<exists>E. startup rws cls file = Some E \<and> loop_inv E"
proof (cases "file")
  case None
  then show ?thesis using loop_inv_init [OF assms] by (simp add: startup_def)
next
  case (Some nc)
  obtain name content where nc: "nc = (name, content)" by (cases nc)
  let ?E0 = "initEditor rws cls"
  have inv0: "loop_inv ?E0" using assms by (rule loop_inv_init)
  then have ok0: "rows_ok ?E0" by (simp add: loop_inv_def)
  from editorOpen_ok [OF ok0, of name content]
  obtain rs s where rs: "editorOpen ?E0 name content
        = Some (?E0\<lparr>filename := Some name, esyntax := s, row := rs,
                    numrows := int (length rs), dirty := 0\<rparr>)" "rowlist_ok rs"
    by blast
  let ?E = "?E0\<lparr>filename := Some name, esyntax := s, row := rs, numrows := int (length rs), dirty := 0\<rparr>"
  have "rows_ok ?E" using rs(2) by (simp add: rows_ok_def)
  moreover have "cursor_ok ?E" by (simp add: cursor_ok_def initEditor_def)
  moreover have "screen_ok ?E" using assms by (simp add: screen_ok_def initEditor_def)
  moreover have "search_idle ?E" by (simp add: search_idle_def initEditor_def)
  ultimately have "loop_inv ?E" by (simp add: loop_inv_def)
  then show ?thesis using rs(1) Some nc by (simp add: startup_def)
qed

definition key_post :: "key_out \<Rightarrow> bool" where
  "key_post out = (case out of Ready E' ks' \<Rightarrow> loop_inv E' | Exited \<Rightarrow> True
                   | InPrompt E' \<Rightarrow> prompt_inv E')"

lemma key_post_reset: "key_post out \<Longrightarrow> key_post (reset_quit_out out)"
  by (cases out) (simp_all add: key_post_def reset_quit_out_def reset_quit_def)

lemma key_post_Ready: "loop_inv E' \<Longrightarrow> key_post (reset_quit E' ks)"
  by (simp add: key_post_def reset_quit_def)

lemma prompt_rel_chars:
  assumes "prompt_rel E E'" and "rows_ok E" and "rows_ok E'" and "0 \<le> j" and "j < numrows E"
  shows "chars (row E' ! nat j) = chars (row E ! nat j)"
proof -
  have "nat j < length (row E)" using assms(4,5) rows_ok_numrows [OF assms(2)] by arith
  moreover have "map chars (row E') = map chars (row E)" using assms(1) by (simp add: prompt_rel_def)
  ultimately show ?thesis using map_chars_nth by blast
qed

lemma editorFind_ok:
  assumes "loop_inv E"
  shows "\<exists>out. editorFind E ks = Some out \<and> key_post out"
proof -
  have a: "rows_ok E" "cursor_ok E" "screen_ok E" "search_idle E"
    using assms by (simp_all add: loop_inv_def)
  from editorPrompt_ok [OF loop_inv_prompt [OF assms], of True "[]" ks]
  obtain out where out: "editorPrompt True E [] ks = Some out" "prompt_post E out" by blast
  show ?thesis
  proof (cases out)
    case (Pending E1)
    then show ?thesis using out by (simp add: editorFind_def prompt_post_def key_post_def)
  next
    case (Answer q E1 ks1)
    then have p: "prompt_inv E1" "prompt_rel E E1" "search_idle E1"
      using out(2) by (simp_all add: prompt_post_def)
    then have b: "rows_ok E1" "cursor_ok E1" "screen_ok E1" by (simp_all add: prompt_inv_def)
    show ?thesis
    proof (cases q)
      case (Some query)
      have "loop_inv E1" using b p(3) by (simp add: loop_inv_def)
      then show ?thesis using out(1) Answer Some by (simp add: editorFind_def key_post_def)
    next
      case None
      define E' where "E' = E1\<lparr>cx := cx E, cy := cy E, coloff := coloff E, rowoff := rowoff E\<rparr>"
      have nr: "numrows E1 = numrows E" "screenrows E1 = screenrows E"
        using p(2) by (simp_all add: prompt_rel_def)
      have "rows_ok E'" using b(1) by (simp add: E'_def rows_ok_def)
      moreover have "cursor_ok E'"
      proof -
        have cy0: "0 \<le> cy E" using a(2) by (simp add: cursor_ok_def)
        have "length (chars (row E' ! nat (cy E))) = length (chars (row E ! nat (cy E)))"
          if "cy E < numrows E"
          using prompt_rel_chars [OF p(2) a(1) b(1) cy0 that] by (simp add: E'_def)
        then show ?thesis using cursor_ok_cong [of E' E] a(2) nr by (simp add: E'_def)
      qed
      moreover have "screen_ok E'" using a(3) nr by (simp add: E'_def screen_ok_def)
      moreover have "search_idle E'" using p(3) by (simp add: E'_def search_idle_def)
      ultimately have "loop_inv E'" by (simp add: loop_inv_def)
      then show ?thesis using out(1) Answer None by (simp add: editorFind_def key_post_def E'_def)
    qed
  qed
qed

lemma loop_inv_save_write: "loop_inv (save_write w E) = loop_inv E"
  by (simp add: save_write_def loop_inv_def rows_ok_def cursor_ok_def screen_ok_def search_idle_def)

lemma editorSave_ok:
  assumes "loop_inv E"
  shows "\<exists>out. editorSave w E ks = Some out \<and> key_post out"
proof (cases "filename E")
  case (Some f)
  then show ?thesis using assms by (simp add: editorSave_def key_post_def loop_inv_save_write)
next
  case None
  from editorPrompt_ok [OF loop_inv_prompt [OF assms], of False "[]" ks] assms
  obtain out where out: "editorPrompt False E [] ks = Some out" "prompt_post E out"
    by (auto simp: loop_inv_def)
  show ?thesis
  proof (cases out)
    case (Pending E1)
    then show ?thesis using out None by (simp add: editorSave_def prompt_post_def key_post_def)
  next
    case (Answer q E1 ks1)
    then have p: "prompt_inv E1" "search_idle E1" using out(2) by (simp_all add: prompt_post_def)
    then have b: "rows_ok E1" "cursor_ok E1" "screen_ok E1" by (simp_all add: prompt_inv_def)
    show ?thesis
    proof (cases q)
      case N: None
      have "loop_inv E1" using b p(2) by (simp add: loop_inv_def)
      then show ?thesis using out(1) Answer N None by (simp add: editorSave_def key_post_def)
    next
      case (Some name)
      define E2 where "E2 = E1\<lparr>filename := Some name\<rparr>"
      have ok2: "rows_ok E2" using b(1) by (simp add: E2_def rows_ok_def)
      from editorSelectSyntax_ok [OF ok2]
      obtain rs s where rs: "editorSelectSyntax E2 = Some (E2\<lparr>esyntax := s, row := rs\<rparr>)"
          "length rs = length (row E2)" "rowlist_ok rs" "map chars rs = map chars (row E2)"
        by blast
      define E3 where "E3 = E2\<lparr>esyntax := s, row := rs\<rparr>"
      have "rows_ok E3"
        using rs(2,3) rows_ok_numrows [OF ok2] by (simp add: E3_def rows_ok_def)
      moreover have "cursor_ok E3"
      proof -
        have "length (chars (row E3 ! nat (cy E1))) = length (chars (row E1 ! nat (cy E1)))"
          if "cy E1 < numrows E1"
        proof -
          have "0 \<le> cy E1" using b(2) by (simp add: cursor_ok_def)
          then have "nat (cy E1) < length (row E1)"
            using that rows_ok_numrows [OF b(1)] by arith
          then show ?thesis
            using map_chars_nth [OF rs(4), of "nat (cy E1)"]
            by (simp add: E3_def E2_def)
        qed
        then show ?thesis using cursor_ok_cong [of E3 E1] b(2) by (simp add: E3_def E2_def)
      qed
      moreover have "screen_ok E3" using b(3) by (simp add: E3_def E2_def screen_ok_def)
      moreover have "search_idle E3" using p(2) by (simp add: E3_def E2_def search_idle_def)
      ultimately have "loop_inv E3" by (simp add: loop_inv_def)
      then have "loop_inv (save_write w E3)" by (simp add: loop_inv_save_write)
      then show ?thesis
        using out(1) Answer Some None rs(1)
        by (simp add: editorSave_def key_post_def E2_def [symmetric] E3_def [symmetric])
    qed
  qed
qed

lemmas key_defs = KEY_ENTER_def KEY_ESC_def CTRL_KEY_def KEY_HOME_def KEY_END_def
  KEY_BACKSPACE_def KEY_DEL_def KEY_PAGE_UP_def KEY_PAGE_DOWN_def KEY_ARROW_UP_def
  KEY_ARROW_DOWN_def KEY_ARROW_LEFT_def KEY_ARROW_RIGHT_def

lemma loop_inv_cursor:
  assumes "loop_inv E" and "nocursor E' = nocursor E" and "cursor_ok E'"
  shows "loop_inv E'"
proof -
  have "rows_ok E'" using nocursor_rows_ok [OF assms(2)] assms(1) by (simp add: loop_inv_def)
  then show ?thesis using loop_inv_rest [OF nocursor_fields(4) [OF assms(2)] _ assms(3) assms(1)]
    by simp
qed

lemma editorProcessKeypress_ok:
  assumes "loop_inv E" and "rowoff E \<le> cy E"
  shows "\<exists>out. editorProcessKeypress w E c ks = Some out \<and> key_post out"
proof -
  have a: "rows_ok E" "cursor_ok E" "screen_ok E" "search_idle E"
    using assms(1) by (simp_all add: loop_inv_def)
  have cur: "0 \<le> cy E" "cy E \<le> numrows E" "0 \<le> cx E"
    using a(2) by (simp_all add: cursor_ok_def)
  have edit: "\<exists>out. (do { E1 \<leftarrow> f; Some (reset_quit E1 ks) }) = Some out \<and> key_post out"
    if "\<exists>E'. f = Some E' \<and> rows_ok E' \<and> cursor_ok E' \<and> rest E' = rest E" for f
  proof -
    from that obtain E' where E': "f = Some E'" "rows_ok E'" "cursor_ok E'" "rest E' = rest E"
      by blast
    have "loop_inv E'" using loop_inv_rest [OF E'(4,2,3) assms(1)] .
    then show ?thesis using E'(1) by (simp add: key_post_Ready)
  qed
  have move: "\<exists>out. (do { E1 \<leftarrow> f; Some (reset_quit E1 ks) }) = Some out \<and> key_post out"
    if "\<exists>E'. f = Some E' \<and> cursor_ok E' \<and> nocursor E' = nocursor E" for f
  proof -
    from that obtain E' where E': "f = Some E'" "cursor_ok E'" "nocursor E' = nocursor E"
      by blast
    have "loop_inv E'" using loop_inv_cursor [OF assms(1) E'(3,2)] .
    then show ?thesis using E'(1) by (simp add: key_post_Ready)
  qed
  consider (enter) "c = KEY_ENTER" | (quit) "c = CTRL_KEY (CHR ''q'')"
    | (save) "c = CTRL_KEY (CHR ''s'')" | (findkey) "c = CTRL_KEY (CHR ''f'')"
    | (home) "c = KEY_HOME" | (end_key) "c = KEY_END"
    | (bksp) "c = KEY_BACKSPACE \<or> c = CTRL_KEY (CHR ''h'')" | (delkey) "c = KEY_DEL"
    | (page) "c = KEY_PAGE_UP \<or> c = KEY_PAGE_DOWN"
    | (arrow) "c = KEY_ARROW_UP \<or> c = KEY_ARROW_DOWN \<or> c = KEY_ARROW_LEFT \<or> c = KEY_ARROW_RIGHT"
    | (noop) "c = CTRL_KEY (CHR ''l'') \<or> c = KEY_ESC"
    | (other) "c \<noteq> KEY_ENTER" "c \<noteq> CTRL_KEY (CHR ''q'')" "c \<noteq> CTRL_KEY (CHR ''s'')"
        "c \<noteq> CTRL_KEY (CHR ''f'')" "c \<noteq> KEY_HOME" "c \<noteq> KEY_END"
        "\<not> (c = KEY_BACKSPACE \<or> c = CTRL_KEY (CHR ''h'') \<or> c = KEY_DEL)"
        "\<not> (c = KEY_PAGE_UP \<or> c = KEY_PAGE_DOWN)"
        "\<not> (c = KEY_ARROW_UP \<or> c = KEY_ARROW_DOWN \<or> c = KEY_ARROW_LEFT \<or> c = KEY_ARROW_RIGHT)"
        "\<not> (c = CTRL_KEY (CHR ''l'') \<or> c = KEY_ESC)"
    by blast
  then show ?thesis
  proof cases
    case enter
    have "editorProcessKeypress w E c ks = do { E1 \<leftarrow> editorInsertNewline E; Some (reset_quit E1 ks) }"
      using enter by (simp add: editorProcessKeypress_def)
    then show ?thesis using edit [OF editorInsertNewline_ok [OF a(1,2)]] by simp
  next
    case quit
    have "editorProcessKeypress w E c ks =
        (if dirty E \<noteq> 0 \<and> quit_times E > 0
         then Some (Ready (E\<lparr>quit_times := quit_times E - 1\<rparr>) ks) else Some Exited)"
      using quit by (simp add: editorProcessKeypress_def key_defs)
    then show ?thesis using assms(1) by (simp add: key_post_def)
  next
    case save
    have "editorProcessKeypress w E c ks = map_option reset_quit_out (editorSave w E ks)"
      using save by (simp add: editorProcessKeypress_def key_defs)
    then show ?thesis using editorSave_ok [OF assms(1), of w ks] key_post_reset by auto
  next
    case findkey
    have "editorProcessKeypress w E c ks = map_option reset_quit_out (editorFind E ks)"
      using findkey by (simp add: editorProcessKeypress_def key_defs)
    then show ?thesis using editorFind_ok [OF assms(1), of ks] key_post_reset by auto
  next
    case home
    have "editorProcessKeypress w E c ks = Some (reset_quit (E\<lparr>cx := 0\<rparr>) ks)"
      using home by (simp add: editorProcessKeypress_def key_defs)
    moreover have "cursor_ok (E\<lparr>cx := 0\<rparr>)" using cur by (simp add: cursor_ok_def)
    then have "loop_inv (E\<lparr>cx := 0\<rparr>)" using loop_inv_cursor [OF assms(1)] by simp
    ultimately show ?thesis by (simp add: key_post_Ready)
  next
    case end_key
    show ?thesis
    proof (cases "cy E < numrows E")
      case True
      let ?E' = "E\<lparr>cx := int (length (chars (row E ! nat (cy E))))\<rparr>"
      have "editorProcessKeypress w E c ks = Some (reset_quit ?E' ks)"
        using end_key True row_at_Some [OF a(1) cur(1) True]
        by (simp add: editorProcessKeypress_def key_defs)
      moreover have "cursor_ok ?E'" using cur True by (simp add: cursor_ok_def)
      then have "loop_inv ?E'" using loop_inv_cursor [OF assms(1)] by simp
      ultimately show ?thesis by (simp add: key_post_Ready)
    next
      case False
      then have "editorProcessKeypress w E c ks = Some (reset_quit E ks)"
        using end_key by (simp add: editorProcessKeypress_def key_defs)
      then show ?thesis using assms(1) by (simp add: key_post_Ready)
    qed
  next
    case bksp
    have "editorProcessKeypress w E c ks = do { E2 \<leftarrow> editorDelChar E; Some (reset_quit E2 ks) }"
      using bksp by (elim disjE) (simp_all add: editorProcessKeypress_def key_defs)
    then show ?thesis using edit [OF editorDelChar_ok [OF a(1,2)]] by simp
  next
    case delkey
    have eq: "editorProcessKeypress w E c ks =
        do { E2 \<leftarrow> (do { E1 \<leftarrow> editorMoveCursor E KEY_ARROW_RIGHT; editorDelChar E1 });
             Some (reset_quit E2 ks) }"
      using delkey by (simp add: editorProcessKeypress_def key_defs)
    from editorMoveCursor_ok [OF a(1) cursor_ok_weak [OF a(2)], of KEY_ARROW_RIGHT]
    obtain E1 where E1: "editorMoveCursor E KEY_ARROW_RIGHT = Some E1" "cursor_ok E1"
        "nocursor E1 = nocursor E" by blast
    have r1: "rows_ok E1" using nocursor_rows_ok [OF E1(3)] a(1) by simp
    from editorDelChar_ok [OF r1 E1(2)]
    obtain E2 where E2: "editorDelChar E1 = Some E2" "rows_ok E2" "cursor_ok E2" "rest E2 = rest E1"
      by blast
    have "rest E2 = rest E" using E2(4) nocursor_fields(4) [OF E1(3)] by simp
    then have "\<exists>E'. (do { E1 \<leftarrow> editorMoveCursor E KEY_ARROW_RIGHT; editorDelChar E1 }) = Some E' \<and>
        rows_ok E' \<and> cursor_ok E' \<and> rest E' = rest E"
      using E1(1) E2 by simp
    from edit [OF this] show ?thesis using eq by simp
  next
    case page
    define key where "key = (if c = KEY_PAGE_UP then KEY_ARROW_UP else KEY_ARROW_DOWN)"
    define E1 where "E1 = (if c = KEY_PAGE_UP then E\<lparr>cy := rowoff E\<rparr>
                       else if rowoff E + screenrows E - 1 > numrows E then E\<lparr>cy := numrows E\<rparr>
                       else E\<lparr>cy := rowoff E + screenrows E - 1\<rparr>)"
    have sr: "1 \<le> screenrows E" "0 \<le> rowoff E" using a(3) by (simp_all add: screen_ok_def)
    have e1: "nocursor E1 = nocursor E" by (simp add: E1_def)
    have r1: "rows_ok E1" using nocursor_rows_ok [OF e1] a(1) by simp
    have w1: "cursor_weak E1"
      using cur sr assms(2) by (simp add: E1_def cursor_weak_def)
    have up: "editorProcessKeypress w E KEY_PAGE_UP ks =
        do { E2 \<leftarrow> move_times (nat (screenrows E)) KEY_ARROW_UP (E\<lparr>cy := rowoff E\<rparr>);
             Some (reset_quit E2 ks) }"
      using sr by (simp add: editorProcessKeypress_def key_defs)
    have down: "editorProcessKeypress w E KEY_PAGE_DOWN ks =
        do { E2 \<leftarrow> move_times (nat (screenrows E)) KEY_ARROW_DOWN
                      (if rowoff E + screenrows E - 1 > numrows E then E\<lparr>cy := numrows E\<rparr>
                       else E\<lparr>cy := rowoff E + screenrows E - 1\<rparr>);
             Some (reset_quit E2 ks) }"
      using sr by (simp add: editorProcessKeypress_def key_defs Let_def)
    have eq: "editorProcessKeypress w E c ks =
        do { E2 \<leftarrow> move_times (nat (screenrows E)) key E1; Some (reset_quit E2 ks) }"
    proof (cases "c = KEY_PAGE_UP")
      case True
      then show ?thesis using up by (simp add: key_def E1_def)
    next
      case False
      then have "c = KEY_PAGE_DOWN" using page by simp
      then show ?thesis using down by (simp add: key_def E1_def key_defs)
    qed
    have "0 < nat (screenrows E)" using sr by simp
    from move_times_ok [OF r1 w1, of "nat (screenrows E)" key] this
    obtain E2 where "move_times (nat (screenrows E)) key E1 = Some E2"
        "cursor_ok E2" "nocursor E2 = nocursor E1" by blast
    then show ?thesis using move [of "move_times (nat (screenrows E)) key E1"] e1 eq
      by simp
  next
    case arrow
    have "editorProcessKeypress w E c ks = do { E1 \<leftarrow> editorMoveCursor E c; Some (reset_quit E1 ks) }"
      using arrow by (elim disjE) (simp_all add: editorProcessKeypress_def key_defs)
    then show ?thesis
      using move [OF editorMoveCursor_ok [OF a(1) cursor_ok_weak [OF a(2)], of c]] by simp
  next
    case noop
    have "editorProcessKeypress w E c ks = Some (reset_quit E ks)"
      using noop by (elim disjE) (simp_all add: editorProcessKeypress_def key_defs)
    then show ?thesis using assms(1) by (simp add: key_post_Ready)
  next
    case other
    show ?thesis
    proof (cases "\<not> iscntrl c \<and> c < 128")
      case True
      have "editorProcessKeypress w E c ks =
          do { E1 \<leftarrow> editorInsertChar E (char_of c); Some (reset_quit E1 ks) }"
        unfolding editorProcessKeypress_def using other True by (simp only: if_False if_True simp_thms)
      then show ?thesis using edit [OF editorInsertChar_ok [OF a(1,2)]] by simp
    next
      case False
      have "editorProcessKeypress w E c ks = Some (reset_quit E ks)"
        unfolding editorProcessKeypress_def using other False by (simp only: if_False if_True simp_thms)
      then show ?thesis using assms(1) by (simp add: key_post_Ready)
    qed
  qed
qed

lemma at_loop_inv: "at_loop E \<Longrightarrow> loop_inv E"
proof (induction rule: at_loop.induct)
  case (start rws cls "file" E)
  then show ?case using startup_ok [OF start(1), of cls "file"] by simp
next
  case (key E E1 written c ks E' ks')
  have a: "rows_ok E" "cursor_ok E" "screen_ok E" "search_idle E"
    using key.IH by (simp_all add: loop_inv_def)
  note r = refreshed_ok [OF a(1,2,3)]
  have E1: "E1 = refreshed E" using key.hyps(2) r(1) by simp
  have "search_idle (refreshed E)" using a(4) by (simp add: refreshed_def search_idle_def)
  then have inv1: "loop_inv E1" using r E1 by (simp add: loop_inv_def)
  from editorProcessKeypress_ok [OF inv1, of written c ks] r(5) E1 key.hyps(3)
  show ?case by (simp add: key_post_def)
qed

lemma reachable_inv: "reachable E \<Longrightarrow> prompt_inv E"
proof (induction rule: reachable.induct)
  case (loop E)
  then show ?case using at_loop_inv loop_inv_prompt by blast
next
  case (refreshed E E1)
  then have "prompt_inv E" using at_loop_inv loop_inv_prompt by blast
  from prompt_inv_refreshed(1,2) [OF this] refreshed(2) show ?case by simp
next
  case (prompt E E1 written c ks E')
  have inv: "loop_inv E" using prompt(1) by (rule at_loop_inv)
  then have a: "rows_ok E" "cursor_ok E" "screen_ok E" "search_idle E"
    by (simp_all add: loop_inv_def)
  note r = refreshed_ok [OF a(1,2,3)]
  have E1: "E1 = refreshed E" using prompt(2) r(1) by simp
  have "search_idle (refreshed E)" using a(4) by (simp add: refreshed_def search_idle_def)
  then have inv1: "loop_inv E1" using r E1 by (simp add: loop_inv_def)
  from editorProcessKeypress_ok [OF inv1, of written c ks] r(5) E1 prompt(3)
  show ?case by (simp add: key_post_def)
qed

text \<open>No step of a run hits undefined behaviour or fails to return.\<close>

lemma at_loop_progress:
  assumes "at_loop E"
  shows "\<exists>E1 out. editorRefreshScreen E = Some E1 \<and> editorProcessKeypress written E1 c ks = Some out"
proof -
  have inv: "loop_inv E" using assms by (rule at_loop_inv)
  then have a: "rows_ok E" "cursor_ok E" "screen_ok E" "search_idle E"
    by (simp_all add: loop_inv_def)
  note r = refreshed_ok [OF a(1,2,3)]
  have "search_idle (refreshed E)" using a(4) by (simp add: refreshed_def search_idle_def)
  then have inv1: "loop_inv (refreshed E)" using r by (simp add: loop_inv_def)
  from editorProcessKeypress_ok [OF inv1 r(5), of written c ks] r(1) show ?thesis by auto
qed

section \<open>Runs of the editor\<close>

lemma main_loop_at_loop:
  assumes "at_loop E" and "main_loop w E ks = Some (Waiting E')"
  shows "reachable E'"
  using assms
proof (induction ks arbitrary: E rule: length_induct)
  case (1 ks)
  show ?case
  proof (cases ks)
    case Nil
    with 1(3) have "editorRefreshScreen E = Some E'" by (auto simp: main_loop.simps)
    with 1(2) show ?thesis by (rule reachable.refreshed)
  next
    case (Cons c ks0)
    with 1(3) obtain E1 out where E1: "editorRefreshScreen E = Some E1"
        and out: "editorProcessKeypress w E1 c ks0 = Some out"
        and res: "(case out of Exited \<Rightarrow> Some Terminated | InPrompt E2 \<Rightarrow> Some (Waiting E2)
                   | Ready E2 ks2 \<Rightarrow> main_loop w E2 ks2) = Some (Waiting E')"
      by (auto simp: main_loop.simps split: option.splits)
    show ?thesis
    proof (cases out)
      case (Ready E2 ks2)
      have a2: "at_loop E2" using 1(2) E1 out [unfolded Ready] by (rule at_loop.key)
      have "length ks2 \<le> length ks0" using out Ready editorProcessKeypress_keys by simp
      then have "length ks2 < length ks" using Cons by simp
      moreover have "main_loop w E2 ks2 = Some (Waiting E')" using res Ready by simp
      ultimately show ?thesis using 1(1) a2 by blast
    next
      case Exited
      with res show ?thesis by simp
    next
      case (InPrompt E2)
      with res have "E2 = E'" by simp
      with 1(2) E1 out InPrompt show ?thesis by (auto intro: reachable.prompt)
    qed
  qed
qed

lemma run_reachable:
  assumes "3 \<le> rws" and "startup rws cls file = Some E0"
    and "main_loop w E0 ks = Some (Waiting E)"
  shows "reachable E"
  using at_loop.start [OF assms(1,2)] assms(3) by (rule main_loop_at_loop)

text \<open>
  A run used as example: the editor is started on a 24 by 80 terminal with a C file of four
  lines, the last one with a tab; then the cursor goes down one line, \<open>*/\<close> is typed at the
  start of the second line, and Enter is pressed.
\<close>

definition example_file :: "(string \<times> string) option" where
  "example_file = Some (''x.c'', ''/* start'' @ [LF] @ ''middle'' @ [LF] @ ''end */'' @ [LF]
                                 @ [TAB] @ ''after'' @ [LF])"

definition example_start :: Editor where
  "example_start = (case startup 24 80 example_file of Some E \<Rightarrow> E | None \<Rightarrow> initEditor 24 80)"

definition example_keys :: "int list" where
  "example_keys = [KEY_ARROW_DOWN, 42, 47, KEY_ENTER]"

definition example_state :: Editor where
  "example_state = (case main_loop True example_start example_keys of
                      Some (Waiting E) \<Rightarrow> E | _ \<Rightarrow> example_start)"

lemma example_reachable: "reachable example_state"
proof -
  have "startup 24 80 example_file \<noteq> None" by code_simp
  then have s: "startup 24 80 example_file = Some example_start"
    by (auto simp: example_start_def)
  have "(case main_loop True example_start example_keys of Some (Waiting E) \<Rightarrow> True | _ \<Rightarrow> False)"
    by code_simp
  then have m: "main_loop True example_start example_keys = Some (Waiting example_state)"
    by (auto simp: example_state_def split: option.splits run_out.splits)
  show ?thesis using run_reachable [OF _ s m] by simp
qed

lemma example_rows:
  "map chars (row example_state) = [''/* start'', ''*/'', ''middle'', ''end */'', TAB # ''after'']"
  by code_simp

section \<open>Render and highlight of a line\<close>




lemma reachable_rows_ok: "reachable E \<Longrightarrow> rows_ok E"
  using reachable_inv by (simp add: prompt_inv_def)












section \<open>Saving and loading again\<close>

lemma getlines_line:
  "LF \<notin> set l \<Longrightarrow> getlines cur (l @ LF # cs) = (cur @ l @ [LF]) # getlines [] cs"
  by (induction l arbitrary: cur) auto

lemma getlines_concat:
  "\<forall>l \<in> set ls. LF \<notin> set l \<Longrightarrow>
   getlines [] (concat (map (\<lambda>l. l @ [LF]) ls)) = map (\<lambda>l. l @ [LF]) ls"
proof (induction ls)
  case Nil
  show ?case by simp
next
  case (Cons l ls)
  then have "LF \<notin> set l" by simp
  from getlines_line [OF this, of "[]" "concat (map (\<lambda>l. l @ [LF]) ls)"] Cons
  show ?case by simp
qed

text \<open>A line that comes back from a save and a load: no newline in it, no carriage return at its end.\<close>

definition line_ok :: "string \<Rightarrow> bool" where
  "line_ok l = (LF \<notin> set l \<and> (l = [] \<or> last l \<noteq> CR))"

lemma chomp_snoc:
  "chomp (xs @ [x]) = (if x = LF \<or> x = CR then chomp xs else xs @ [x])"
  by (simp add: chomp_def)

lemma chomp_line: "line_ok l \<Longrightarrow> chomp (l @ [LF]) = l"
proof (cases l rule: rev_cases)
  case Nil
  then show ?thesis by (simp add: chomp_def)
next
  case (snoc xs x)
  assume "line_ok l"
  then have "x \<noteq> LF" "x \<noteq> CR" using snoc by (auto simp: line_ok_def)
  then have "chomp (xs @ [x]) = xs @ [x]" by (simp add: chomp_snoc)
  moreover have "chomp ((xs @ [x]) @ [LF]) = chomp (xs @ [x])" by (subst chomp_snoc) simp
  ultimately show ?thesis using snoc by simp
qed

lemma set_chomp: "set (chomp l) \<subseteq> set l"
  using set_dropWhileD [of _ "\<lambda>c. c = LF \<or> c = CR" "rev l"] by (auto simp: chomp_def)

lemma chomp_last: "chomp l = [] \<or> (last (chomp l) \<noteq> CR \<and> last (chomp l) \<noteq> LF)"
proof (cases "dropWhile (\<lambda>c. c = LF \<or> c = CR) (rev l)")
  case Nil
  then show ?thesis by (simp add: chomp_def)
next
  case (Cons y ys)
  then have "\<not> (y = LF \<or> y = CR)"
    using hd_dropWhile [of "\<lambda>c. c = LF \<or> c = CR" "rev l"] by simp
  then show ?thesis using Cons by (simp add: chomp_def)
qed

lemma chomp_no_LF:
  assumes "LF \<notin> set (butlast l)"
  shows "LF \<notin> set (chomp l)"
proof (cases l rule: rev_cases)
  case Nil
  then show ?thesis by (simp add: chomp_def)
next
  case (snoc xs x)
  show ?thesis
  proof (cases "x = LF \<or> x = CR")
    case True
    then have "chomp l = chomp xs" using snoc by (simp add: chomp_snoc)
    then show ?thesis using assms snoc set_chomp [of xs] by auto
  next
    case False
    then show ?thesis using assms snoc by (auto simp: chomp_snoc)
  qed
qed

lemma getlines_shape:
  "LF \<notin> set cur \<Longrightarrow> \<forall>l \<in> set (getlines cur cs). LF \<notin> set (butlast l)"
proof (induction cs arbitrary: cur)
  case Nil
  then show ?case by (auto dest: in_set_butlastD)
next
  case (Cons c cs)
  show ?case
  proof (cases "c = LF")
    case True
    have "\<forall>l \<in> set (getlines [] cs). LF \<notin> set (butlast l)" by (rule Cons.IH) simp
    then show ?thesis using True Cons.prems by simp
  next
    case False
    then have "LF \<notin> set (cur @ [c])" using Cons.prems by simp
    from Cons.IH [OF this] show ?thesis using False by simp
  qed
qed

lemma loaded_line_ok: "l \<in> set (getlines [] content) \<Longrightarrow> line_ok (chomp l)"
proof -
  assume "l \<in> set (getlines [] content)"
  then have "LF \<notin> set (butlast l)" using getlines_shape [of "[]" content] by simp
  then have "LF \<notin> set (chomp l)" by (rule chomp_no_LF)
  then show ?thesis using chomp_last [of l] by (auto simp: line_ok_def)
qed

lemma rows_ok_init: "rows_ok (initEditor rws cls)"
  by (simp add: rows_ok_def rowlist_ok_def initEditor_def)

lemma load_lines:
  "\<exists>E'. editorOpen (initEditor rws cls) name content = Some E' \<and>
        numrows E' = int (length (row E')) \<and>
        map chars (row E') = map chomp (getlines [] content)"
proof -
  from editorOpen_ok [OF rows_ok_init, of rws cls name content]
  obtain rs s where "editorOpen (initEditor rws cls) name content
        = Some ((initEditor rws cls)\<lparr>filename := Some name, esyntax := s, row := rs,
                                    numrows := int (length rs), dirty := 0\<rparr>)"
      "map chars rs = map chars (row (initEditor rws cls)) @ map chomp (getlines [] content)"
    by blast
  then show ?thesis by (simp add: initEditor_def)
qed

lemma save_lines:
  assumes "numrows E = int (length (row E))"
  shows "editorRowsToString E = concat (map (\<lambda>l. l @ [LF]) (map chars (row E)))"
  using assms by (simp add: editorRowsToString_def comp_def)

lemma save_load_lines:
  assumes "numrows E = int (length (row E))" and "\<forall>r \<in> set (row E). line_ok (chars r)"
  shows "\<exists>E'. editorOpen (initEditor rws cls) name (editorRowsToString E) = Some E' \<and>
              map chars (row E') = map chars (row E)"
proof -
  let ?ls = "map chars (row E)"
  have ok: "\<forall>l \<in> set ?ls. line_ok l" using assms(2) by simp
  then have "\<forall>l \<in> set ?ls. LF \<notin> set l" by (simp add: line_ok_def)
  then have "getlines [] (editorRowsToString E) = map (\<lambda>l. l @ [LF]) ?ls"
    unfolding save_lines [OF assms(1)] by (rule getlines_concat)
  then have "map chomp (getlines [] (editorRowsToString E)) = map (\<lambda>l. chomp (l @ [LF])) ?ls"
    by (simp add: comp_def)
  also have "\<dots> = map (\<lambda>l. l) ?ls"
    using ok by (intro map_cong refl) (auto simp: chomp_line)
  finally have "map chomp (getlines [] (editorRowsToString E)) = ?ls" by simp
  with load_lines [of rws cls name "editorRowsToString E"] show ?thesis by auto
qed

text \<open>
  A state that is reached and unmodified, but has a line ending in a carriage return: the
  file \<open>x.txt\<close> holds the one line \<open>a\<close>, CR, \<open>b\<close>; End and Backspace delete the \<open>b\<close>, and
  Ctrl-S saves.
\<close>

definition cr_state :: Editor where
  "cr_state =
     (case startup 24 80 (Some (''x.txt'', [CHR ''a'', CR, CHR ''b'', LF])) of
        Some E \<Rightarrow> (case main_loop True E [KEY_END, KEY_BACKSPACE, CTRL_KEY (CHR ''s'')] of
                     Some (Waiting E') \<Rightarrow> E' | _ \<Rightarrow> E)
      | None \<Rightarrow> initEditor 24 80)"

lemma cr_state_reachable: "reachable cr_state"
proof -
  define E0 where "E0 = (case startup 24 80 (Some (''x.txt'', [CHR ''a'', CR, CHR ''b'', LF])) of
                           Some E \<Rightarrow> E | None \<Rightarrow> initEditor 24 80)"
  have "startup 24 80 (Some (''x.txt'', [CHR ''a'', CR, CHR ''b'', LF])) \<noteq> None" by code_simp
  then have s: "startup 24 80 (Some (''x.txt'', [CHR ''a'', CR, CHR ''b'', LF])) = Some E0"
    by (auto simp: E0_def)
  have "(case startup 24 80 (Some (''x.txt'', [CHR ''a'', CR, CHR ''b'', LF])) of
           Some E \<Rightarrow> (case main_loop True E [KEY_END, KEY_BACKSPACE, CTRL_KEY (CHR ''s'')] of
                        Some (Waiting E') \<Rightarrow> True | _ \<Rightarrow> False)
         | None \<Rightarrow> False)"
    by code_simp
  then have m: "main_loop True E0 [KEY_END, KEY_BACKSPACE, CTRL_KEY (CHR ''s'')]
                  = Some (Waiting cr_state)"
    using s by (auto simp: cr_state_def split: option.splits run_out.splits)
  show ?thesis using run_reachable [OF _ s m] by simp
qed

text \<open>
  Claim C7, as stated, fails for a line that ends in a carriage return: \<open>cr_state\<close> is
  reachable and unmodified (\<open>dirty = 0\<close>), its one line is \<open>a\<close>, CR; it is saved as
  \<open>a\<close>, CR, LF, and loading that gives the line \<open>a\<close>.
\<close>

theorem carriage_return_not_reloaded:
  "reachable cr_state \<and> dirty cr_state = 0 \<and>
   map chars (row cr_state) = [[CHR ''a'', CR]] \<and>
   editorRowsToString cr_state = [CHR ''a'', CR, LF] \<and>
   map_option (\<lambda>E. map chars (row E))
     (editorOpen (initEditor 24 80) ''x.txt'' (editorRowsToString cr_state)) = Some [''a'']"
proof -
  have "dirty cr_state = 0" by code_simp
  moreover have "map chars (row cr_state) = [[CHR ''a'', CR]]" by code_simp
  moreover have "editorRowsToString cr_state = [CHR ''a'', CR, LF]" by code_simp
  moreover have "map_option (\<lambda>E. map chars (row E))
     (editorOpen (initEditor 24 80) ''x.txt'' (editorRowsToString cr_state)) = Some [''a'']"
    by code_simp
  ultimately show ?thesis using cr_state_reachable by (intro conjI) assumption+
qed

text \<open>
  Claim C7, amended.  For every reachable buffer in which no line contains a newline or
  ends in a carriage return, loading what \<open>editorRowsToString\<close> makes of it gives exactly
  the same sequence of line contents.  Every buffer as \<open>editorOpen\<close> has loaded it, from
  any file content, is such a buffer: its lines are \<open>line_ok\<close>, and saving and loading it
  again reproduces them.
\<close>

theorem save_reload_roundtrip:
  "(reachable E \<and> (\<forall>r \<in> set (row E). line_ok (chars r)) \<longrightarrow>
      (\<exists>E'. editorOpen (initEditor rws cls) name (editorRowsToString E) = Some E' \<and>
            map chars (row E') = map chars (row E))) \<and>
   (\<exists>E0. editorOpen (initEditor rws cls) name content = Some E0 \<and>
         (\<forall>r \<in> set (row E0). line_ok (chars r)) \<and>
         (\<exists>E'. editorOpen (initEditor rws cls) name (editorRowsToString E0) = Some E' \<and>
               map chars (row E') = map chars (row E0)))"
proof (intro conjI impI)
  assume a: "reachable E \<and> (\<forall>r \<in> set (row E). line_ok (chars r))"
  then have "numrows E = int (length (row E))"
    using reachable_rows_ok rows_ok_numrows by blast
  then show "\<exists>E'. editorOpen (initEditor rws cls) name (editorRowsToString E) = Some E' \<and>
                  map chars (row E') = map chars (row E)"
    using a by (intro save_load_lines) simp_all
next
  from load_lines [of rws cls name content]
  obtain E0 where E0: "editorOpen (initEditor rws cls) name content = Some E0"
      "numrows E0 = int (length (row E0))"
      "map chars (row E0) = map chomp (getlines [] content)"
    by blast
  have "\<forall>l \<in> set (map chars (row E0)). line_ok l"
    unfolding E0(3) using loaded_line_ok by auto
  then have ok: "\<forall>r \<in> set (row E0). line_ok (chars r)" by simp
  from save_load_lines [OF E0(2) ok, of rws cls name] E0(1) ok
  show "\<exists>E0. editorOpen (initEditor rws cls) name content = Some E0 \<and>
             (\<forall>r \<in> set (row E0). line_ok (chars r)) \<and>
             (\<exists>E'. editorOpen (initEditor rws cls) name (editorRowsToString E0) = Some E' \<and>
                   map chars (row E') = map chars (row E0))"
    by blast
qed

theorem save_reload_roundtrip_witness:
  "reachable example_state \<and>
   list_all line_ok (map chars (row example_state)) \<and>
   (\<exists>E'. editorOpen (initEditor 24 80) ''x.c'' (editorRowsToString example_state) = Some E' \<and>
         map chars (row E') = [''/* start'', ''*/'', ''middle'', ''end */'', TAB # ''after''])"
proof -
  have ok: "list_all line_ok (map chars (row example_state))"
    unfolding example_rows by (simp add: line_ok_def LF_def CR_def TAB_def)
  then have "\<forall>r \<in> set (row example_state). line_ok (chars r)"
    by (simp add: list_all_iff)
  with save_reload_roundtrip [of example_state 24 80 "''x.c''" "[]"] example_reachable
  have "\<exists>E'. editorOpen (initEditor 24 80) ''x.c'' (editorRowsToString example_state) = Some E' \<and>
             map chars (row E') = map chars (row example_state)"
    by blast
  then show ?thesis using example_reachable ok by (simp add: example_rows)
qed

section \<open>Block comments across lines\<close>

text \<open>
  The buffer of four lines loaded from a C file, whose profile has the block-comment
  markers \<open>/*\<close> and \<open>*/\<close>, and the state after the cursor has gone down to line 1 and \<open>*/\<close>
  has been typed there.
\<close>

definition comment_file :: "(string \<times> string) option" where
  "comment_file = Some (''x.c'', ''/* start'' @ [LF] @ ''middle'' @ [LF] @ ''end */'' @ [LF]
                                 @ ''after'' @ [LF])"

definition comment_loaded :: Editor where
  "comment_loaded = (case startup 24 80 comment_file of Some E \<Rightarrow> E | None \<Rightarrow> initEditor 24 80)"

definition comment_closed :: Editor where
  "comment_closed = (case main_loop True comment_loaded [KEY_ARROW_DOWN, 42, 47] of
                       Some (Waiting E) \<Rightarrow> E | _ \<Rightarrow> comment_loaded)"

lemma block_comment_markers:
  "map_option (\<lambda>s. (mcs s, mce s)) (esyntax comment_loaded) = Some (''/*'', ''*/'')"
  by code_simp

lemma block_comment_loaded:
  "map chars (row comment_loaded) = [''/* start'', ''middle'', ''end */'', ''after''] \<and>
   map hl (row comment_loaded)
     = [replicate 8 HL_MLCOMMENT, replicate 6 HL_MLCOMMENT, replicate 6 HL_MLCOMMENT,
        replicate 5 HL_NORMAL] \<and>
   map hl_open_comment (row comment_loaded) = [True, True, False, False]"
  by code_simp

lemma block_comment_closed:
  "map chars (row comment_closed) = [''/* start'', ''*/middle'', ''end */'', ''after''] \<and>
   map hl (row comment_closed)
     = [replicate 8 HL_MLCOMMENT, replicate 2 HL_MLCOMMENT @ replicate 6 HL_NORMAL,
        replicate 6 HL_NORMAL, replicate 5 HL_NORMAL] \<and>
   map hl_open_comment (row comment_closed) = [True, False, False, False]"
  by code_simp

text \<open>
  A line split by Enter: the file \<open>t.c\<close> has the two lines \<open>"/*" a\<close> and \<open>b\<close>; the cursor
  goes right by one and Enter is pressed, which makes the three lines \<open>"\<close>, \<open>/*" a\<close> and
  \<open>b\<close>.
\<close>

definition DQ :: char where "DQ = CHR 0x22"

definition split_file :: "(string \<times> string) option" where
  "split_file = Some (''t.c'', [DQ] @ ''/*'' @ [DQ] @ '' a'' @ [LF] @ ''b'' @ [LF])"

definition split_loaded :: Editor where
  "split_loaded = (case startup 24 80 split_file of Some E \<Rightarrow> E | None \<Rightarrow> initEditor 24 80)"

definition split_state :: Editor where
  "split_state = (case main_loop True split_loaded [KEY_ARROW_RIGHT, KEY_ENTER] of
                    Some (Waiting E) \<Rightarrow> E | _ \<Rightarrow> split_loaded)"

text \<open>
  Claim C3.  The example of the claim holds (\<open>block_comment_loaded\<close>,
  \<open>block_comment_closed\<close>), but its rule, that a change of a line's \<open>hl_open_comment\<close> flag
  makes the following line be highlighted again, does not hold when the line is one that
  \<open>editorInsertRow\<close> has just inserted: \<open>editorUpdateRow\<close> runs before \<open>E.numrows++\<close>, so
  that \<open>row->idx + 1 < E.numrows\<close> is false for a row inserted before the last one.  In
  \<open>split_state\<close> the new line \<open>/*" a\<close> opens a block comment and its flag has become
  true, and the line \<open>b\<close> after it is still \<open>HL_NORMAL\<close> with its flag false; the
  highlighter run on that line, or on the same text when loaded from a file, makes it a
  comment.
\<close>

theorem inserted_row_flag_not_propagated:
  "startup 24 80 split_file = Some split_loaded \<and>
   main_loop True split_loaded [KEY_ARROW_RIGHT, KEY_ENTER] = Some (Waiting split_state) \<and>
   map chars (row split_loaded) = [[DQ] @ ''/*'' @ [DQ] @ '' a'', ''b''] \<and>
   map hl_open_comment (row split_loaded) = [False, False] \<and>
   map chars (row split_state) = [[DQ], ''/*'' @ [DQ] @ '' a'', ''b''] \<and>
   map hl (row split_state) = [[HL_STRING], replicate 5 HL_MLCOMMENT, [HL_NORMAL]] \<and>
   map hl_open_comment (row split_state) = [False, True, False] \<and>
   map_option (\<lambda>E. map hl (row E)) (editorUpdateSyntax split_state 2)
     = Some [[HL_STRING], replicate 5 HL_MLCOMMENT, [HL_MLCOMMENT]] \<and>
   map_option (\<lambda>E. map hl (row E))
       (startup 24 80 (Some (''t.c'', editorRowsToString split_state)))
     = Some [[HL_STRING], replicate 5 HL_MLCOMMENT, [HL_MLCOMMENT]]"
  by code_simp

end
